theory Spec2Isabelle
  imports Main
begin

section \<open>Concrete big integers\<close>

text \<open>
  The hint functions and the constructor of the comparator compute on Go's
  \<^verbatim>\<open>*big.Int\<close>, unbounded integers, modelled as \<^typ>\<open>int\<close>. The four
  methods of \<^verbatim>\<open>big.Int\<close> the code calls are written out here.
\<close>

text \<open>\<^verbatim>\<open>x.Cmp(y)\<close>: -1 if x < y, 0 if x = y, +1 if x > y.\<close>

definition Cmp :: "int \<Rightarrow> int \<Rightarrow> int" where
  "Cmp x y = (if x < y then - 1 else if x = y then 0 else 1)"

text \<open>\<^verbatim>\<open>x.BitLen()\<close>: the length of the absolute value of x in bits; 0 for 0.\<close>

fun bitLenNat :: "nat \<Rightarrow> nat" where
  "bitLenNat n = (if n = 0 then 0 else Suc (bitLenNat (n div 2)))"

declare bitLenNat.simps [simp del]

definition BitLen :: "int \<Rightarrow> nat" where
  "BitLen x = bitLenNat (nat \<bar>x\<bar>)"

text \<open>\<^verbatim>\<open>z.Rsh(x, n)\<close> is x >> n, and \<^verbatim>\<open>z.Lsh(x, n)\<close> is x << n.\<close>

definition Rsh :: "int \<Rightarrow> nat \<Rightarrow> int" where
  "Rsh x n = x div 2 ^ n"

definition Lsh :: "int \<Rightarrow> nat \<Rightarrow> int" where
  "Lsh x n = x * 2 ^ n"

section \<open>The concrete ordering of the comparator's hints\<close>

text \<open>\<^verbatim>\<open>cmpInField\<close> of bounded.csgo: compares a and b in a field of the given order.\<close>

definition cmpInField :: "int \<Rightarrow> int \<Rightarrow> int \<Rightarrow> int" where
  "cmpInField a b order =
     (let biggestPositiveNum = Rsh order 1 in
      if Cmp a biggestPositiveNum * Cmp b biggestPositiveNum = - 1
      then - Cmp a b
      else Cmp a b)"

text \<open>
  The signed interpretation of a field element, as the specification's glossary
  has it: v itself when v is at most (P - 1) / 2, and v - P above.
\<close>

definition signedRep :: "int \<Rightarrow> int \<Rightarrow> int" where
  "signedRep P v = (if v \<le> (P - 1) div 2 then v else v - P)"

section \<open>Hint functions\<close>

text \<open>
  A hint is a Go function \<^verbatim>\<open>func(fieldOrder, inputs, results []*big.Int) error\<close>. It
  receives the slice of results already allocated and overwrites its slots. The
  model takes the slice as it is before the call and returns it as it is after.
  Reading a slice out of range is a run-time panic in Go, here the value
  \<open>Inl IndexOutOfRange\<close>; a returned \<^verbatim>\<open>nil\<close> error is \<open>Inr\<close>.
\<close>

datatype error = Panic string | IndexOutOfRange

function muxIndicatorsLoop :: "int \<Rightarrow> nat \<Rightarrow> int list \<Rightarrow> int list" where
  "muxIndicatorsLoop sel i results =
     (if i < length results
      then muxIndicatorsLoop sel (Suc i)
             (results[i := (if Cmp sel (int i) = 0 then 1 else 0)])
      else results)"
  by pat_completeness auto
termination
  by (relation "measure (\<lambda>(sel, i, results). length results - i)") auto

declare muxIndicatorsLoop.simps [simp del]

definition muxIndicators :: "int \<Rightarrow> int list \<Rightarrow> int list \<Rightarrow> error + int list" where
  "muxIndicators fieldOrder inputs results =
     (if inputs = [] then Inl IndexOutOfRange
      else let sel = inputs ! 0 in Inr (muxIndicatorsLoop sel 0 results))"

function mapIndicatorsLoop :: "int \<Rightarrow> int list \<Rightarrow> nat \<Rightarrow> int list \<Rightarrow> error + int list" where
  "mapIndicatorsLoop key inputs i results =
     (if i < length results
      then (if length inputs \<le> i then Inl IndexOutOfRange
            else mapIndicatorsLoop key inputs (Suc i)
                   (results[i := (if Cmp key (inputs ! i) = 0 then 1 else 0)]))
      else Inr results)"
  by pat_completeness auto
termination
  by (relation "measure (\<lambda>(key, inputs, i, results). length results - i)") auto

declare mapIndicatorsLoop.simps [simp del]

definition mapIndicators :: "int \<Rightarrow> int list \<Rightarrow> int list \<Rightarrow> error + int list" where
  "mapIndicators fieldOrder inputs results =
     (if inputs = [] then Inl IndexOutOfRange
      else let key = inputs ! (length inputs - 1) in mapIndicatorsLoop key inputs 0 results)"

definition minOutputHint :: "int \<Rightarrow> int list \<Rightarrow> int list \<Rightarrow> error + int list" where
  "minOutputHint fieldOrder inputs results =
     (if length inputs < 2 then Inl IndexOutOfRange
      else let a = inputs ! 0; b = inputs ! 1 in
        if results = [] then Inl IndexOutOfRange
        else if cmpInField a b fieldOrder = - 1
        then Inr (results[0 := a])
        else Inr (results[0 := b]))"

definition isLessOutputHint :: "int \<Rightarrow> int list \<Rightarrow> int list \<Rightarrow> error + int list" where
  "isLessOutputHint fieldOrder inputs results =
     (if length inputs < 2 then Inl IndexOutOfRange
      else let a = inputs ! 0; b = inputs ! 1 in
        if results = [] then Inl IndexOutOfRange
        else if cmpInField a b fieldOrder = - 1
        then Inr (results[0 := 1])
        else Inr (results[0 := 0]))"

section \<open>The constraint system\<close>

text \<open>
  Modelled from the spec: the field and constraint API, the hint subsystem and the
  bit-decomposition gadget are consumed by this repository and are not part of its
  sources. A \<^verbatim>\<open>frontend.Variable\<close> is a symbolic expression over constants and
  circuit variables; \<^verbatim>\<open>Add\<close>, \<^verbatim>\<open>Sub\<close> and \<^verbatim>\<open>Mul\<close> build expressions that
  are evaluated modulo the field order P; \<^verbatim>\<open>Select(cond, a, b)\<close> is a where cond
  is 1 and b where cond is 0, and constrains cond to be 0 or 1;
  \<^verbatim>\<open>AssertIsEqual\<close> appends an equality constraint; \<^verbatim>\<open>NewHint\<close> allocates fresh
  variables and records the deferred computation that will supply their values;
  the bit decomposition into N digits holds of exactly the values in [0, 2^N).
\<close>

datatype expr =
    Const int
  | Var nat
  | Add expr expr
  | Sub expr expr
  | Mul expr expr
  | Select expr expr expr

datatype constr =
    IsEqual expr expr
  | IsBoolean expr
  | HasBitLen nat expr

datatype hintFn = MuxIndicators | MapIndicators | MinOutputHint | IsLessOutputHint

record hintCall =
  hFn :: hintFn
  hInputs :: "expr list"
  hFirst :: nat
  hCount :: nat

record builder =
  nextVar :: nat
  hintCalls :: "hintCall list"
  constraints :: "constr list"

definition emptyBuilder :: builder where
  "emptyBuilder = \<lparr>nextVar = 0, hintCalls = [], constraints = []\<rparr>"

definition AssertIsEqual :: "expr \<Rightarrow> expr \<Rightarrow> builder \<Rightarrow> builder" where
  "AssertIsEqual a b cs = cs\<lparr>constraints := constraints cs @ [IsEqual a b]\<rparr>"

definition apiSelect :: "expr \<Rightarrow> expr \<Rightarrow> expr \<Rightarrow> builder \<Rightarrow> expr \<times> builder" where
  "apiSelect cond a b cs =
     (Select cond a b, cs\<lparr>constraints := constraints cs @ [IsBoolean cond]\<rparr>)"

definition NewHint :: "hintFn \<Rightarrow> nat \<Rightarrow> expr list \<Rightarrow> builder \<Rightarrow> expr list \<times> builder" where
  "NewHint f n ins cs =
     (map Var [nextVar cs ..< nextVar cs + n],
      cs\<lparr>nextVar := nextVar cs + n,
         hintCalls := hintCalls cs @
           [\<lparr>hFn = f, hInputs = ins, hFirst = nextVar cs, hCount = n\<rparr>]\<rparr>)"

definition ToBinary :: "expr \<Rightarrow> nat \<Rightarrow> builder \<Rightarrow> builder" where
  "ToBinary x nbDigits cs = cs\<lparr>constraints := constraints cs @ [HasBitLen nbDigits x]\<rparr>"

text \<open>\<^verbatim>\<open>convert.AssertBitLen\<close> of binary.csgo.\<close>

definition AssertBitLen :: "nat \<Rightarrow> expr \<Rightarrow> builder \<Rightarrow> builder" where
  "AssertBitLen bitLen x cs = ToBinary x bitLen cs"

section \<open>Selector: Map and Mux\<close>

text \<open>
  A panic is returned as \<open>Inl\<close>, together with the shared constraint system as it
  is when the panic is raised.
\<close>

function selectorLoop ::
  "bool \<Rightarrow> expr \<Rightarrow> expr list \<Rightarrow> expr list \<Rightarrow> expr list \<Rightarrow> nat \<Rightarrow> expr \<Rightarrow> expr \<Rightarrow> builder
     \<Rightarrow> (error \<times> builder) + ((expr \<times> expr) \<times> builder)" where
  "selectorLoop wantMux sel keys values indicators i indicatorsSum out cs =
     (if i < length indicators
      then (if \<not> wantMux \<and> length keys \<le> i then Inl (IndexOutOfRange, cs)
            else let cs1 =
                   (if wantMux
                    then AssertIsEqual (Mul (indicators ! i) (Sub sel (Const (int i)))) (Const 0) cs
                    else AssertIsEqual (Mul (indicators ! i) (Sub sel (keys ! i))) (Const 0) cs)
                 in if length values \<le> i then Inl (IndexOutOfRange, cs1)
                    else selectorLoop wantMux sel keys values indicators (Suc i)
                           (Add indicatorsSum (indicators ! i))
                           (Add out (Mul (indicators ! i) (values ! i))) cs1)
      else Inr ((indicatorsSum, out), cs))"
  by pat_completeness auto
termination
  by (relation "measure (\<lambda>(wantMux, sel, keys, values, indicators, i, indicatorsSum, out, cs).
        length indicators - i)") auto

declare selectorLoop.simps [simp del]

definition generateSelector ::
  "bool \<Rightarrow> expr \<Rightarrow> expr list \<Rightarrow> expr list \<Rightarrow> builder
     \<Rightarrow> (error \<times> builder) + ((expr \<times> expr list) \<times> builder)" where
  "generateSelector wantMux sel keys values cs =
     (if wantMux \<and> length values = 2
      then (let (r, cs1) = apiSelect sel (values ! 1) (values ! 0) cs in Inr ((r, []), cs1))
      else
        let (indicators, cs1) =
              (if wantMux then NewHint MuxIndicators (length values) [sel] cs
               else NewHint MapIndicators (length keys) (keys @ [sel]) cs)
        in case selectorLoop wantMux sel keys values indicators 0 (Const 0) (Const 0) cs1 of
             Inl e \<Rightarrow> Inl e
           | Inr ((indicatorsSum, out), cs2) \<Rightarrow>
               Inr ((out, indicators), AssertIsEqual indicatorsSum (Const 1) cs2))"

definition Map ::
  "expr \<Rightarrow> expr list \<Rightarrow> expr list \<Rightarrow> builder
     \<Rightarrow> (error \<times> builder) + ((expr \<times> expr list) \<times> builder)" where
  "Map queryKey keys values cs =
     (if length keys \<noteq> length values
      then Inl (Panic ''The number of keys and values must be equal'', cs)
      else generateSelector False queryKey keys values cs)"

definition Mux ::
  "expr \<Rightarrow> expr list \<Rightarrow> builder \<Rightarrow> (error \<times> builder) + ((expr \<times> expr list) \<times> builder)" where
  "Mux sel inputs cs = generateSelector True sel [] inputs cs"

section \<open>BoundedComparator\<close>

record BoundedComparator =
  absDiffUppBitLen :: nat

text \<open>The field order P stands for \<^verbatim>\<open>runtime.FieldOrder()\<close>.\<close>

definition NewBoundedComparator :: "int \<Rightarrow> int \<Rightarrow> bool \<Rightarrow> error + BoundedComparator" where
  "NewBoundedComparator P absDiffUpp allowNonDeterminism =
     (if Cmp absDiffUpp 0 \<noteq> 1 \<or> Cmp absDiffUpp P \<noteq> - 1
      then Inl (Panic ''absDiffUpp must be a positive number smaller than the field order'')
      else
        let smallestNeg = (P - absDiffUpp) - 1;
            len = BitLen absDiffUpp
        in if BitLen smallestNeg \<le> len
           then Inl (Panic ''cannot construct the comparator, the specified absDiffUpp is too high'')
           else if \<not> allowNonDeterminism \<and> Cmp P (Lsh 1 (len + 1) + 1) = - 1
           then Inl (Panic ''absDiffUpp must be smaller to ensure deterministic behaviour'')
           else Inr \<lparr>absDiffUppBitLen = len\<rparr>)"

text \<open>
  A method of the comparator runs on its receiver \<open>self\<close> (passed by value) and on
  the shared constraint system \<open>api\<close>; the state after the call holds both.
\<close>

record session =
  self :: BoundedComparator
  api :: builder

definition assertIsNonNegative :: "expr \<Rightarrow> session \<Rightarrow> session" where
  "assertIsNonNegative a st = st\<lparr>api := AssertBitLen (absDiffUppBitLen (self st)) a (api st)\<rparr>"

definition AssertIsLessEq :: "expr \<Rightarrow> expr \<Rightarrow> session \<Rightarrow> session" where
  "AssertIsLessEq a b st = assertIsNonNegative (Sub b a) st"

definition AssertIsLess :: "expr \<Rightarrow> expr \<Rightarrow> session \<Rightarrow> session" where
  "AssertIsLess a b st = AssertIsLessEq a (Sub b (Const 1)) st"

definition IsLess :: "expr \<Rightarrow> expr \<Rightarrow> session \<Rightarrow> (error \<times> session) + (expr \<times> session)" where
  "IsLess a b st =
     (let (res, cs1) = NewHint IsLessOutputHint 1 [a, b] (api st) in
      case Mux (res ! 0) [Sub a b, Sub (Sub b a) (Const 1)] cs1 of
        Inl (e, cs2) \<Rightarrow> Inl (e, st\<lparr>api := cs2\<rparr>)
      | Inr ((temp, _), cs2) \<Rightarrow> Inr (res ! 0, assertIsNonNegative temp (st\<lparr>api := cs2\<rparr>)))"

definition IsLessEq :: "expr \<Rightarrow> expr \<Rightarrow> session \<Rightarrow> (error \<times> session) + (expr \<times> session)" where
  "IsLessEq a b st = IsLess a (Add b (Const 1)) st"

definition Min_bc :: "expr \<Rightarrow> expr \<Rightarrow> session \<Rightarrow> expr \<times> session" where
  "Min_bc a b st =
     (let (res, cs1) = NewHint MinOutputHint 1 [a, b] (api st);
          minV = res ! 0;
          aDiff = Sub a minV;
          bDiff = Sub b minV;
          cs2 = AssertIsEqual (Mul aDiff bDiff) (Const 0) cs1
      in (minV, assertIsNonNegative (Add aDiff bDiff) (st\<lparr>api := cs2\<rparr>)))"

section \<open>Witness generation\<close>

text \<open>
  Modelled from the spec: witness generation, which is not part of the sources
  either. An assignment gives every circuit variable a value; expressions are
  evaluated in the field of order P; the recorded hints are run in the order of
  their allocation, each on the values of its inputs and on a freshly allocated
  slice of results, and their results are stored in the variables allocated for
  them.
\<close>

fun eval :: "int \<Rightarrow> (nat \<Rightarrow> int) \<Rightarrow> expr \<Rightarrow> int" where
  "eval P env (Const c) = c mod P"
| "eval P env (Var v) = env v mod P"
| "eval P env (Add a b) = (eval P env a + eval P env b) mod P"
| "eval P env (Sub a b) = (eval P env a - eval P env b) mod P"
| "eval P env (Mul a b) = (eval P env a * eval P env b) mod P"
| "eval P env (Select c a b) =
     (eval P env b + eval P env c * (eval P env a - eval P env b)) mod P"

fun holds :: "int \<Rightarrow> (nat \<Rightarrow> int) \<Rightarrow> constr \<Rightarrow> bool" where
  "holds P env (IsEqual a b) = (eval P env a = eval P env b)"
| "holds P env (IsBoolean c) = (eval P env c = 0 \<or> eval P env c = 1)"
| "holds P env (HasBitLen n x) = (eval P env x < 2 ^ n)"

text \<open>The constraints that a call has appended to the constraint system.\<close>

definition emitted :: "builder \<Rightarrow> builder \<Rightarrow> constr list" where
  "emitted cs cs' = drop (length (constraints cs)) (constraints cs')"

definition satisfied :: "int \<Rightarrow> (nat \<Rightarrow> int) \<Rightarrow> constr list \<Rightarrow> bool" where
  "satisfied P env cns = list_all (holds P env) cns"

fun hintFunction :: "hintFn \<Rightarrow> int \<Rightarrow> int list \<Rightarrow> int list \<Rightarrow> error + int list" where
  "hintFunction MuxIndicators = muxIndicators"
| "hintFunction MapIndicators = mapIndicators"
| "hintFunction MinOutputHint = minOutputHint"
| "hintFunction IsLessOutputHint = isLessOutputHint"

definition assign :: "nat \<Rightarrow> int list \<Rightarrow> (nat \<Rightarrow> int) \<Rightarrow> (nat \<Rightarrow> int)" where
  "assign first res env =
     (\<lambda>v. if first \<le> v \<and> v < first + length res then res ! (v - first) else env v)"

fun runHints :: "int \<Rightarrow> hintCall list \<Rightarrow> (nat \<Rightarrow> int) \<Rightarrow> error + (nat \<Rightarrow> int)" where
  "runHints P [] env = Inr env"
| "runHints P (h # hs) env =
     (case hintFunction (hFn h) P (map (eval P env) (hInputs h)) (replicate (hCount h) 0) of
        Inl e \<Rightarrow> Inl e
      | Inr res \<Rightarrow> runHints P hs (assign (hFirst h) res env))"

text \<open>An assignment given by the list of the values of the variables 0, 1, ...\<close>

definition envOf :: "int list \<Rightarrow> (nat \<Rightarrow> int)" where
  "envOf xs = (\<lambda>v. if v < length xs then xs ! v else 0)"

text \<open>A field order is a prime.\<close>

definition is_prime :: "int \<Rightarrow> bool" where
  "is_prime p \<longleftrightarrow> 1 < p \<and> (\<forall>d \<in> {2..<p}. \<not> d dvd p)"

section \<open>Properties of the concrete ordering\<close>

lemma Cmp_antisym: "Cmp b a = - Cmp a b"
  by (simp add: Cmp_def)

lemma Cmp_refl: "Cmp a a = 0"
  by (simp add: Cmp_def)

text \<open>
  C10: for a field order P > 0 and a, b in [0, P), \<open>cmpInField\<close> is antisymmetric,
  cmpInField(a, b, P) = - cmpInField(b, a, P), and reflexive, cmpInField(a, a, P) = 0.
\<close>

theorem cmpInField_antisym_refl:
  assumes "0 < P" and "0 \<le> a" and "a < P" and "0 \<le> b" and "b < P"
  shows "cmpInField a b P = - cmpInField b a P \<and> cmpInField a a P = 0"
proof -
  have swap: "Cmp b (Rsh P 1) * Cmp a (Rsh P 1) = Cmp a (Rsh P 1) * Cmp b (Rsh P 1)"
    by (rule mult.commute)
  have "cmpInField a b P = - cmpInField b a P"
    unfolding cmpInField_def Let_def swap by (simp add: Cmp_antisym [of a b])
  moreover have "Cmp a (Rsh P 1) * Cmp a (Rsh P 1) \<noteq> - 1"
    by (simp add: Cmp_def)
  then have "cmpInField a a P = 0"
    by (simp add: cmpInField_def Let_def Cmp_refl)
  ultimately show ?thesis ..
qed

theorem cmpInField_antisym_refl_witness:
  "(0::int) < 13 \<and> cmpInField 5 7 13 = 1 \<and> cmpInField 7 5 13 = - 1 \<and> cmpInField 5 5 13 = 0"
  using cmpInField_antisym_refl [of 13 5 7]
  by (simp add: cmpInField_def Cmp_def Rsh_def)

text \<open>
  C2, at the input a = 6, b = 7 in the field of order 13. Here half = 13 >> 1 = 6, so
  exactly one of a and b exceeds half, and the signed interpretations are 6 and -6:
  the claim asks for the negation of the raw comparison, 1. \<open>cmpInField\<close> returns
  the raw comparison, -1: the product of the two comparisons with half is 0, not -1,
  when one of the operands is half itself.
\<close>

theorem cmpInField_half_not_inverted:
  "0 \<le> (6::int) \<and> 6 < (13::int) \<and> 0 \<le> (7::int) \<and> 7 < (13::int) \<and>
   \<not> 6 > Rsh 13 1 \<and> 7 > Rsh 13 1 \<and>
   Cmp 6 7 = - 1 \<and>
   Cmp (signedRep 13 6) (signedRep 13 7) = 1 \<and>
   cmpInField 6 7 13 = - 1"
  by (simp add: cmpInField_def Cmp_def Rsh_def signedRep_def)

section \<open>The constructor of the comparator\<close>

lemma bitLenNat_le_iff: "bitLenNat n \<le> k \<longleftrightarrow> n < 2 ^ k"
proof (induction n arbitrary: k rule: bitLenNat.induct)
  case (1 n)
  show ?case
  proof (cases "n = 0")
    case True
    then show ?thesis by (simp add: bitLenNat.simps)
  next
    case False
    show ?thesis
    proof (cases k)
      case 0
      with False show ?thesis by (simp add: bitLenNat.simps [of n])
    next
      case (Suc j)
      have "bitLenNat n \<le> Suc j \<longleftrightarrow> bitLenNat (n div 2) \<le> j"
        using False by (simp add: bitLenNat.simps [of n])
      also have "\<dots> \<longleftrightarrow> n div 2 < 2 ^ j"
        using "1.IH" [OF False] .
      also have "\<dots> \<longleftrightarrow> n < 2 ^ Suc j"
        by auto
      finally show ?thesis using Suc by simp
    qed
  qed
qed

lemma BitLen_le_iff: "0 \<le> x \<Longrightarrow> BitLen x \<le> k \<longleftrightarrow> x < 2 ^ k"
  by (simp add: BitLen_def bitLenNat_le_iff nat_less_iff)

text \<open>
  C4: \<open>NewBoundedComparator\<close> panics exactly when absDiffUpp \<le> 0, or absDiffUpp \<ge> P,
  or bitlength(P - absDiffUpp - 1) \<le> bitlength(absDiffUpp), or allowNonDeterminism is
  false and P < 2^(bitlength(absDiffUpp) + 1) + 1; in every other case it returns the
  comparator whose absDiffUppBitLen is bitlength(absDiffUpp).
\<close>

theorem NewBoundedComparator_fails_iff:
  "((\<exists>e. NewBoundedComparator P absDiffUpp allowNonDeterminism = Inl e) \<longleftrightarrow>
      (absDiffUpp \<le> 0 \<or> P \<le> absDiffUpp \<or> BitLen (P - absDiffUpp - 1) \<le> BitLen absDiffUpp \<or>
       (\<not> allowNonDeterminism \<and> P < 2 ^ (BitLen absDiffUpp + 1) + 1))) \<and>
   (\<not> (absDiffUpp \<le> 0 \<or> P \<le> absDiffUpp \<or> BitLen (P - absDiffUpp - 1) \<le> BitLen absDiffUpp \<or>
       (\<not> allowNonDeterminism \<and> P < 2 ^ (BitLen absDiffUpp + 1) + 1)) \<longrightarrow>
    NewBoundedComparator P absDiffUpp allowNonDeterminism = Inr \<lparr>absDiffUppBitLen = BitLen absDiffUpp\<rparr>)"
  by (auto simp: NewBoundedComparator_def Cmp_def Lsh_def Let_def split: if_splits)

theorem NewBoundedComparator_fails_iff_witness:
  "NewBoundedComparator 13 2 False = Inr \<lparr>absDiffUppBitLen = 2\<rparr> \<and>
   (\<exists>e. NewBoundedComparator 13 4 False = Inl e) \<and>
   NewBoundedComparator 13 4 True = Inr \<lparr>absDiffUppBitLen = 3\<rparr> \<and>
   (\<exists>e. NewBoundedComparator 13 6 True = Inl e)"
  using NewBoundedComparator_fails_iff [of 13 2 False]
    NewBoundedComparator_fails_iff [of 13 4 False]
    NewBoundedComparator_fails_iff [of 13 4 True]
    NewBoundedComparator_fails_iff [of 13 6 True]
  by (simp add: BitLen_def bitLenNat.simps)

section \<open>The indicator hints\<close>

lemma muxIndicatorsLoop_length: "length (muxIndicatorsLoop sel i results) = length results"
proof (induction sel i results rule: muxIndicatorsLoop.induct)
  case (1 sel i results)
  show ?case
  proof (cases "i < length results")
    case True
    with "1.IH" show ?thesis by (simp add: muxIndicatorsLoop.simps [of sel i results])
  next
    case False
    then show ?thesis by (simp add: muxIndicatorsLoop.simps [of sel i results])
  qed
qed

lemma muxIndicatorsLoop_nth:
  "j < length results \<Longrightarrow>
   muxIndicatorsLoop sel i results ! j =
     (if i \<le> j then (if sel = int j then 1 else 0) else results ! j)"
proof (induction sel i results rule: muxIndicatorsLoop.induct)
  case (1 sel i results)
  show ?case
  proof (cases "i < length results")
    case True
    have "muxIndicatorsLoop sel i results ! j =
          muxIndicatorsLoop sel (Suc i) (results[i := (if Cmp sel (int i) = 0 then 1 else 0)]) ! j"
      using True by (simp add: muxIndicatorsLoop.simps [of sel i results])
    also have "\<dots> = (if Suc i \<le> j then (if sel = int j then 1 else 0)
                     else (results[i := (if Cmp sel (int i) = 0 then 1 else 0)]) ! j)"
      using "1.IH" [OF True] "1.prems" by simp
    also have "\<dots> = (if i \<le> j then (if sel = int j then 1 else 0) else results ! j)"
      using True by (auto simp: Cmp_def nth_list_update not_less_eq_eq)
    finally show ?thesis .
  next
    case False
    with "1.prems" show ?thesis by (simp add: muxIndicatorsLoop.simps [of sel i results])
  qed
qed

lemma mapIndicatorsLoop_Inr:
  "length results \<le> length inputs \<Longrightarrow>
   \<exists>r. mapIndicatorsLoop key inputs i results = Inr r \<and> length r = length results \<and>
       (\<forall>j<length results. r ! j =
          (if i \<le> j then (if inputs ! j = key then 1 else 0) else results ! j))"
proof (induction key inputs i results rule: mapIndicatorsLoop.induct)
  case (1 key inputs i results)
  show ?case
  proof (cases "i < length results")
    case True
    let ?rs = "results[i := (if Cmp key (inputs ! i) = 0 then 1 else 0)]"
    from True "1.prems" have inb: "\<not> length inputs \<le> i" by simp
    have step: "mapIndicatorsLoop key inputs i results = mapIndicatorsLoop key inputs (Suc i) ?rs"
      using True inb by (simp add: mapIndicatorsLoop.simps [of key inputs i results])
    from "1.IH" [OF True inb] "1.prems"
    obtain r where r: "mapIndicatorsLoop key inputs (Suc i) ?rs = Inr r"
      "length r = length results"
      "\<forall>j<length results. r ! j =
          (if Suc i \<le> j then (if inputs ! j = key then 1 else 0) else ?rs ! j)"
      by auto
    have "\<forall>j<length results. r ! j =
          (if i \<le> j then (if inputs ! j = key then 1 else 0) else results ! j)"
      using r(3) True by (auto simp: Cmp_def nth_list_update not_less_eq_eq)
    with r(1,2) step show ?thesis by simp
  next
    case False
    then show ?thesis by (simp add: mapIndicatorsLoop.simps [of key inputs i results])
  qed
qed

text \<open>
  C7: called with at least one input, \<open>muxIndicators\<close> returns without error and
  sets results[i] to 1 when sel = inputs[0] equals i and to 0 otherwise, for every
  index i of the results; called with more inputs than results (the keys, then the
  query key), \<open>mapIndicators\<close> returns without error and sets results[i] to 1 when
  inputs[i] equals the last input and to 0 otherwise. Whatever the slice of results
  held before, every slot holds 0 or 1 afterwards. (On fewer inputs the Go code
  panics on an index out of range; \<open>generateSelector\<close> never registers such a call.)
\<close>

theorem indicator_hints_fill_every_slot:
  "(inputs \<noteq> [] \<longrightarrow>
     (\<exists>r. muxIndicators P inputs results = Inr r \<and> length r = length results \<and>
        (\<forall>i<length results.
           r ! i = (if inputs ! 0 = int i then 1 else 0) \<and> (r ! i = 0 \<or> r ! i = 1)))) \<and>
   (length results < length inputs \<longrightarrow>
     (\<exists>r. mapIndicators P inputs results = Inr r \<and> length r = length results \<and>
        (\<forall>i<length results.
           r ! i = (if inputs ! i = last inputs then 1 else 0) \<and> (r ! i = 0 \<or> r ! i = 1))))"
proof (intro conjI impI)
  assume "inputs \<noteq> []"
  then show "\<exists>r. muxIndicators P inputs results = Inr r \<and> length r = length results \<and>
        (\<forall>i<length results.
           r ! i = (if inputs ! 0 = int i then 1 else 0) \<and> (r ! i = 0 \<or> r ! i = 1))"
    by (simp add: muxIndicators_def muxIndicatorsLoop_length muxIndicatorsLoop_nth)
next
  assume len: "length results < length inputs"
  then have ne: "inputs \<noteq> []" by auto
  from len have "length results \<le> length inputs" by simp
  from mapIndicatorsLoop_Inr [OF this, of "last inputs" 0]
  obtain r where r: "mapIndicatorsLoop (last inputs) inputs 0 results = Inr r"
    "length r = length results"
    "\<forall>j<length results. r ! j = (if inputs ! j = last inputs then 1 else 0)"
    by auto
  have "mapIndicators P inputs results = Inr r"
    using ne r(1) by (simp add: mapIndicators_def last_conv_nth)
  with r(2,3) show "\<exists>r. mapIndicators P inputs results = Inr r \<and> length r = length results \<and>
        (\<forall>i<length results.
           r ! i = (if inputs ! i = last inputs then 1 else 0) \<and> (r ! i = 0 \<or> r ! i = 1))"
    by auto
qed

theorem indicator_hints_fill_every_slot_witness:
  "[1::int] \<noteq> [] \<and> muxIndicators 13 [1] [5, 5, 5] = Inr [0, 1, 0] \<and>
   length [5, 5, 5 :: int] < length [3, 7, 9, 7 :: int] \<and>
   mapIndicators 13 [3, 7, 9, 7] [5, 5, 5] = Inr [0, 1, 0]"
  using indicator_hints_fill_every_slot [of "[1]" 13 "[5, 5, 5]"]
    indicator_hints_fill_every_slot [of "[3, 7, 9, 7]" 13 "[5, 5, 5]"]
  by (simp add: muxIndicators_def muxIndicatorsLoop.simps mapIndicators_def mapIndicatorsLoop.simps Cmp_def)

lemma muxIndicatorsLoop_buffer:
  assumes "length r1 = length r2"
  shows "muxIndicatorsLoop sel 0 r1 = muxIndicatorsLoop sel 0 r2"
  using assms
  by (intro nth_equalityI) (simp_all add: muxIndicatorsLoop_length muxIndicatorsLoop_nth)

lemma mapIndicatorsLoop_buffer:
  assumes "length r1 = length r2" and "length r1 \<le> length inputs"
  shows "mapIndicatorsLoop key inputs 0 r1 = mapIndicatorsLoop key inputs 0 r2"
proof -
  obtain o1 where o1: "mapIndicatorsLoop key inputs 0 r1 = Inr o1" "length o1 = length r1"
    "\<forall>j<length r1. o1 ! j = (if inputs ! j = key then 1 else 0)"
    using mapIndicatorsLoop_Inr [of r1 inputs key 0] assms(2) by auto
  obtain o2 where o2: "mapIndicatorsLoop key inputs 0 r2 = Inr o2" "length o2 = length r2"
    "\<forall>j<length r2. o2 ! j = (if inputs ! j = key then 1 else 0)"
    using mapIndicatorsLoop_Inr [of r2 inputs key 0] assms by auto
  have "o1 = o2"
    using o1(2,3) o2(2,3) assms(1) by (intro nth_equalityI) simp_all
  with o1(1) o2(1) show ?thesis by simp
qed

lemma singleton_update: "length r = Suc 0 \<Longrightarrow> r[0 := x] = [x]"
  by (cases r) simp_all

text \<open>
  C8: the result of each of the four hints is a function of the field order and of
  the inputs only. Two calls with the same field order and the same inputs, on any
  two slices of results of the same length, return the same results and no error:
  \<open>muxIndicators\<close> on at least one input, \<open>mapIndicators\<close> on more inputs than
  results, \<open>minOutputHint\<close> and \<open>isLessOutputHint\<close> on at least two inputs and one
  result, which are the shapes \<open>NewHint\<close> is called with in the sources.
\<close>

theorem hints_depend_on_order_and_inputs_only:
  assumes "length r1 = length r2"
  shows "(inputs \<noteq> [] \<longrightarrow>
           muxIndicators P inputs r1 = muxIndicators P inputs r2 \<and>
           (\<exists>out. muxIndicators P inputs r1 = Inr out)) \<and>
         (length r1 < length inputs \<longrightarrow>
           mapIndicators P inputs r1 = mapIndicators P inputs r2 \<and>
           (\<exists>out. mapIndicators P inputs r1 = Inr out)) \<and>
         (2 \<le> length inputs \<and> length r1 = 1 \<longrightarrow>
           minOutputHint P inputs r1 = minOutputHint P inputs r2 \<and>
           (\<exists>out. minOutputHint P inputs r1 = Inr out) \<and>
           isLessOutputHint P inputs r1 = isLessOutputHint P inputs r2 \<and>
           (\<exists>out. isLessOutputHint P inputs r1 = Inr out))"
proof (intro conjI impI)
  assume "inputs \<noteq> []"
  then show "muxIndicators P inputs r1 = muxIndicators P inputs r2"
    using muxIndicatorsLoop_buffer [OF assms] by (simp add: muxIndicators_def)
  show "\<exists>out. muxIndicators P inputs r1 = Inr out"
    using \<open>inputs \<noteq> []\<close> by (simp add: muxIndicators_def)
next
  assume len: "length r1 < length inputs"
  then have ne: "inputs \<noteq> []" and le: "length r1 \<le> length inputs" by auto
  show "mapIndicators P inputs r1 = mapIndicators P inputs r2"
    using ne mapIndicatorsLoop_buffer [OF assms le] by (simp add: mapIndicators_def)
  show "\<exists>out. mapIndicators P inputs r1 = Inr out"
    using ne mapIndicatorsLoop_Inr [OF le, of "inputs ! (length inputs - 1)" 0]
    by (auto simp: mapIndicators_def)
next
  assume sh: "2 \<le> length inputs \<and> length r1 = 1"
  with assms have l1: "length r1 = Suc 0" and l2: "length r2 = Suc 0" and ne: "r1 \<noteq> []" "r2 \<noteq> []"
    by auto
  from sh have nl: "\<not> length inputs < 2" by simp
  show "minOutputHint P inputs r1 = minOutputHint P inputs r2"
    using nl ne by (simp add: minOutputHint_def Let_def singleton_update [OF l1] singleton_update [OF l2])
  show "\<exists>out. minOutputHint P inputs r1 = Inr out"
    using nl ne by (simp add: minOutputHint_def Let_def)
  show "isLessOutputHint P inputs r1 = isLessOutputHint P inputs r2"
    using nl ne by (simp add: isLessOutputHint_def Let_def singleton_update [OF l1] singleton_update [OF l2])
  show "\<exists>out. isLessOutputHint P inputs r1 = Inr out"
    using nl ne by (simp add: isLessOutputHint_def Let_def)
qed

theorem hints_depend_on_order_and_inputs_only_witness:
  "length [0::int] = length [9::int] \<and>
   muxIndicators 13 [5, 6] [0] = Inr [0] \<and> muxIndicators 13 [5, 6] [9] = Inr [0] \<and>
   mapIndicators 13 [5, 6] [0] = Inr [0] \<and> mapIndicators 13 [5, 6] [9] = Inr [0] \<and>
   minOutputHint 13 [5, 6] [0] = Inr [5] \<and> minOutputHint 13 [5, 6] [9] = Inr [5] \<and>
   isLessOutputHint 13 [5, 6] [0] = Inr [1] \<and> isLessOutputHint 13 [5, 6] [9] = Inr [1]"
  using hints_depend_on_order_and_inputs_only [of "[0]" "[9]" "[5, 6]" 13]
  by (simp add: muxIndicators_def muxIndicatorsLoop.simps mapIndicators_def
      mapIndicatorsLoop.simps minOutputHint_def isLessOutputHint_def cmpInField_def Cmp_def Rsh_def)

section \<open>The selector\<close>

lemma selectorLoop_Inr:
  assumes "length indicators \<le> length values"
    and "wantMux \<or> length indicators \<le> length keys"
  shows "selectorLoop wantMux sel keys values indicators i s out cs =
     Inr ((foldl (\<lambda>acc j. Add acc (indicators ! j)) s [i..<length indicators],
           foldl (\<lambda>acc j. Add acc (Mul (indicators ! j) (values ! j))) out [i..<length indicators]),
          cs\<lparr>constraints := constraints cs @
             map (\<lambda>j. IsEqual (Mul (indicators ! j)
                                  (Sub sel (if wantMux then Const (int j) else keys ! j)))
                               (Const 0))
               [i..<length indicators]\<rparr>)"
  using assms
proof (induction wantMux sel keys "values" indicators i s out cs rule: selectorLoop.induct)
  case (1 wantMux sel ks vals indicators i indicatorsSum outp cs)
  show ?case
  proof (cases "i < length indicators")
    case True
    with "1.prems" have k: "\<not> (\<not> wantMux \<and> length ks \<le> i)" and v: "\<not> length vals \<le> i"
      by auto
    note IH = "1.IH" [OF True k refl v "1.prems"]
    show ?thesis
      using True k v
      apply (subst selectorLoop.simps)
      apply (simp only: if_True if_False Let_def IH)
      apply (auto simp: upt_conv_Cons AssertIsEqual_def)
      done
  next
    case False
    then show ?thesis
      by (subst selectorLoop.simps) simp
  qed
qed

lemma eval_mod_id: "eval P env e mod P = eval P env e"
  by (cases e) simp_all

lemma eval_foldl_Add:
  "eval P env (foldl (\<lambda>acc j. Add acc (f j)) s js) =
     (eval P env s + sum_list (map (\<lambda>j. eval P env (f j)) js)) mod P"
proof (induction js arbitrary: s)
  case Nil
  then show ?case by (simp add: eval_mod_id)
next
  case (Cons j js)
  have "eval P env (foldl (\<lambda>acc j. Add acc (f j)) s (j # js)) =
        (eval P env (Add s (f j)) + sum_list (map (\<lambda>j. eval P env (f j)) js)) mod P"
    using Cons.IH [of "Add s (f j)"] by simp
  also have "\<dots> = (eval P env s + eval P env (f j) + sum_list (map (\<lambda>j. eval P env (f j)) js)) mod P"
    by (simp add: mod_add_left_eq)
  finally show ?case by (simp add: add.assoc)
qed

lemma Map_total:
  "length keys = length values \<Longrightarrow> \<exists>r. Map queryKey keys values cs = Inr r"
  by (simp add: Map_def generateSelector_def NewHint_def selectorLoop_Inr)

text \<open>
  C5: when len(keys) differs from len(values), \<open>Map\<close> panics at once: the constraint
  system carried by the panic is the one \<open>Map\<close> was called on, with no hint
  allocated and no constraint added. When the lengths are equal, \<open>Map\<close> does not
  panic.
\<close>

theorem Map_panics_on_length_mismatch:
  "(length keys \<noteq> length values \<longrightarrow>
      Map queryKey keys values cs =
        Inl (Panic ''The number of keys and values must be equal'', cs)) \<and>
   (length keys = length values \<longrightarrow> (\<exists>r. Map queryKey keys values cs = Inr r))"
  using Map_total [of keys "values" queryKey cs] by (simp add: Map_def)

theorem Map_panics_on_length_mismatch_witness:
  "Map (Const 7) [Const 3, Const 7, Const 9] [Const 30, Const 70] emptyBuilder =
     Inl (Panic ''The number of keys and values must be equal'', emptyBuilder) \<and>
   (\<exists>r. Map (Const 7) [Const 3, Const 7, Const 9] [Const 30, Const 70, Const 90] emptyBuilder =
     Inr r)"
  using Map_panics_on_length_mismatch
          [of "[Const 3, Const 7, Const 9]" "[Const 30, Const 70]" "Const 7" emptyBuilder]
    Map_panics_on_length_mismatch
          [of "[Const 3, Const 7, Const 9]" "[Const 30, Const 70, Const 90]" "Const 7" emptyBuilder]
  by simp

lemma Mux_two_inputs:
  "Mux sel [x0, x1] cs =
     Inr ((Select sel x1 x0, []), cs\<lparr>constraints := constraints cs @ [IsBoolean sel]\<rparr>)"
  by (simp add: Mux_def generateSelector_def apiSelect_def)

lemma eval_Select:
  assumes "1 < P" and "eval P env sel = int k" and "k < 2"
  shows "eval P env (Select sel x1 x0) = eval P env ([x0, x1] ! k)"
proof -
  have em: "\<And>e. eval P env e mod P = eval P env e"
    subgoal for e by (cases e) simp_all
    done
  from assms(3) have "k = 0 \<or> k = 1" by auto
  then show ?thesis using assms(2) by (auto simp: em)
qed

text \<open>
  C6, at a call of \<open>Mux\<close> with one input. The claim (and the comment of \<open>Mux\<close>)
  say that fewer than three inputs yield no indicators. \<open>generateSelector\<close> takes
  the short cut only when there are exactly two inputs; with one input it allocates
  one indicator by the hint and returns it.
\<close>

theorem Mux_one_input_has_indicator:
  "Mux (Const 0) [Const 10] emptyBuilder =
     Inr ((Add (Const 0) (Mul (Var 0) (Const 10)), [Var 0]),
          \<lparr>nextVar = 1,
           hintCalls = [\<lparr>hFn = MuxIndicators, hInputs = [Const 0], hFirst = 0, hCount = 1\<rparr>],
           constraints = [IsEqual (Mul (Var 0) (Sub (Const 0) (Const 0))) (Const 0),
                          IsEqual (Add (Const 0) (Var 0)) (Const 1)]\<rparr>)"
  by (simp add: Mux_def generateSelector_def NewHint_def emptyBuilder_def selectorLoop.simps
      AssertIsEqual_def)

section \<open>The comparator\<close>

lemma IsLess_Inr:
  "IsLess a b st =
     Inr (Var (nextVar (api st)),
          st\<lparr>api := (api st)\<lparr>nextVar := Suc (nextVar (api st)),
                hintCalls := hintCalls (api st) @
                  [\<lparr>hFn = IsLessOutputHint, hInputs = [a, b], hFirst = nextVar (api st), hCount = 1\<rparr>],
                constraints := constraints (api st) @
                  [IsBoolean (Var (nextVar (api st))),
                   HasBitLen (absDiffUppBitLen (self st))
                     (Select (Var (nextVar (api st))) (Sub (Sub b a) (Const 1)) (Sub a b))]\<rparr>\<rparr>)"
  by (simp add: IsLess_def NewHint_def Mux_two_inputs assertIsNonNegative_def AssertBitLen_def
      ToBinary_def)

lemma Min_bc_eq:
  "Min_bc a b st =
     (Var (nextVar (api st)),
      st\<lparr>api := (api st)\<lparr>nextVar := Suc (nextVar (api st)),
            hintCalls := hintCalls (api st) @
              [\<lparr>hFn = MinOutputHint, hInputs = [a, b], hFirst = nextVar (api st), hCount = 1\<rparr>],
            constraints := constraints (api st) @
              [IsEqual (Mul (Sub a (Var (nextVar (api st)))) (Sub b (Var (nextVar (api st)))))
                 (Const 0),
               HasBitLen (absDiffUppBitLen (self st))
                 (Add (Sub a (Var (nextVar (api st)))) (Sub b (Var (nextVar (api st)))))]\<rparr>\<rparr>)"
  by (simp add: Min_bc_def NewHint_def assertIsNonNegative_def AssertBitLen_def ToBinary_def
      AssertIsEqual_def Let_def)

text \<open>
  C9: the comparator that \<open>NewBoundedComparator\<close> returns has
  absDiffUppBitLen = bitlength(absDiffUpp), and none of its operations changes the
  comparator it is called on: after \<open>assertIsNonNegative\<close>, \<open>AssertIsLessEq\<close>,
  \<open>AssertIsLess\<close>, \<open>IsLess\<close>, \<open>IsLessEq\<close> and \<open>Min\<close> the receiver is what it was
  before; only the shared constraint system differs.
\<close>

theorem comparator_unchanged_by_operations:
  "(NewBoundedComparator P absDiffUpp allowNonDeterminism = Inr bc \<longrightarrow>
      absDiffUppBitLen bc = BitLen absDiffUpp) \<and>
   self (assertIsNonNegative a st) = self st \<and>
   self (AssertIsLessEq a b st) = self st \<and>
   self (AssertIsLess a b st) = self st \<and>
   (\<exists>r st'. IsLess a b st = Inr (r, st') \<and> self st' = self st) \<and>
   (\<exists>r st'. IsLessEq a b st = Inr (r, st') \<and> self st' = self st) \<and>
   self (snd (Min_bc a b st)) = self st"
  by (auto simp: NewBoundedComparator_def Let_def assertIsNonNegative_def AssertIsLessEq_def
      AssertIsLess_def IsLessEq_def IsLess_Inr Min_bc_eq split: if_splits)

theorem comparator_unchanged_by_operations_witness:
  "NewBoundedComparator 13 2 False = Inr \<lparr>absDiffUppBitLen = 2\<rparr> \<and> BitLen 2 = 2"
  using comparator_unchanged_by_operations [of 13 2 False "\<lparr>absDiffUppBitLen = 2\<rparr>"]
  by (simp add: NewBoundedComparator_def Cmp_def Lsh_def BitLen_def bitLenNat.simps)

section \<open>Soundness of the selector\<close>

lemma eval_range: "0 < P \<Longrightarrow> 0 \<le> eval P env e \<and> eval P env e < P"
  by (cases e) simp_all

lemma is_prime_dvd_mult:
  assumes "is_prime p" and "p dvd a * b"
  shows "p dvd a \<or> p dvd b"
proof (cases "p dvd a")
  case True
  then show ?thesis ..
next
  case False
  from assms(1) have p1: "1 < p" and nd: "\<And>d. 2 \<le> d \<Longrightarrow> d < p \<Longrightarrow> \<not> d dvd p"
    by (auto simp: is_prime_def)
  let ?g = "gcd p a"
  have g_dvd: "?g dvd p" by simp
  have g_pos: "0 < ?g" using p1 by (simp add: gcd_pos_int)
  have g_le: "?g \<le> p" using g_dvd p1 by (intro zdvd_imp_le) simp_all
  have "?g \<noteq> p"
  proof
    assume "?g = p"
    then have "p dvd a" by (metis gcd_dvd2)
    with False show False ..
  qed
  with g_le have "?g < p" by simp
  with nd [of ?g] g_dvd have "\<not> 2 \<le> ?g" by blast
  with g_pos have "?g = 1" by linarith
  then have "coprime p a" by (simp add: coprime_iff_gcd_eq_1)
  with assms(2) have "p dvd b" by (simp add: coprime_dvd_mult_right_iff)
  then show ?thesis ..
qed

lemma field_zero_product:
  assumes "is_prime P"
    and x: "0 \<le> x" "x < P"
    and a: "0 \<le> a" "a < P"
    and b: "0 \<le> b" "b < P"
    and ne: "a \<noteq> b"
    and z: "(x * ((a - b) mod P)) mod P = 0"
  shows "x = 0"
proof -
  from z have "P dvd x * ((a - b) mod P)" by (simp add: dvd_eq_mod_eq_0)
  then have "P dvd x \<or> P dvd (a - b) mod P" by (rule is_prime_dvd_mult [OF assms(1)])
  moreover have "\<not> P dvd (a - b) mod P"
  proof
    assume "P dvd (a - b) mod P"
    then have "P dvd a - b" by (simp add: dvd_mod_iff)
    then obtain c where c: "a - b = P * c" by (auto simp: dvd_def)
    from a b have "\<bar>a - b\<bar> < P" by linarith
    with c have "\<bar>P * c\<bar> < P" by simp
    then have "\<bar>P\<bar> * \<bar>c\<bar> < \<bar>P\<bar> * 1" using a by (simp add: abs_mult)
    then have "\<bar>c\<bar> < 1" by (simp only: mult_less_cancel_left_disj) auto
    then have "c = 0" by simp
    with c ne show False by simp
  qed
  ultimately have "P dvd x" by blast
  with x show "x = 0"
    using zdvd_not_zless [of x P] by (cases "x = 0") auto
qed

lemma sum_list_single:
  assumes "k < n" and "\<And>j. j < n \<Longrightarrow> j \<noteq> k \<Longrightarrow> h j = (0::int)"
  shows "sum_list (map h [0..<n]) = h k"
proof -
  have "sum_list (map h [0..<n]) = sum h {0..<n}"
    by (simp add: interv_sum_list_conv_sum_set_nat)
  also have "\<dots> = sum (\<lambda>j. if j = k then h k else 0) {0..<n}"
    using assms(2) by (intro sum.cong) auto
  also have "\<dots> = h k"
    using assms(1) by simp
  finally show ?thesis .
qed

lemma generateSelector_Inr:
  assumes "\<not> (wantMux \<and> length values = 2)"
    and "wantMux \<or> length keys \<le> length values"
    and n: "n = (if wantMux then length values else length keys)"
    and inds: "inds = map Var [nextVar cs ..< nextVar cs + n]"
  shows "generateSelector wantMux sel keys values cs =
     Inr ((foldl (\<lambda>acc j. Add acc (Mul (inds ! j) (values ! j))) (Const 0) [0..<n], inds),
          cs\<lparr>nextVar := nextVar cs + n,
             hintCalls := hintCalls cs @
               [\<lparr>hFn = (if wantMux then MuxIndicators else MapIndicators),
                 hInputs = (if wantMux then [sel] else keys @ [sel]),
                 hFirst = nextVar cs, hCount = n\<rparr>],
             constraints := constraints cs @
               map (\<lambda>j. IsEqual (Mul (inds ! j)
                                    (Sub sel (if wantMux then Const (int j) else keys ! j)))
                                 (Const 0)) [0..<n] @
               [IsEqual (foldl (\<lambda>acc j. Add acc (inds ! j)) (Const 0) [0..<n]) (Const 1)]\<rparr>)"
proof -
  have len: "length inds = n" using inds by simp
  have l1: "length inds \<le> length values" using assms(2) n len by (auto split: if_splits)
  have l2: "wantMux \<or> length inds \<le> length keys" using n len by (auto split: if_splits)
  show ?thesis
  proof (cases wantMux)
    case True
    with assms(1) have "length values \<noteq> 2" by simp
    with True show ?thesis
      using selectorLoop_Inr [OF l1 l2, of sel 0 "Const 0" "Const 0"] n len inds
      by (simp add: generateSelector_def NewHint_def AssertIsEqual_def)
  next
    case False
    then show ?thesis
      using selectorLoop_Inr [OF l1 l2, of sel 0 "Const 0" "Const 0"] n len inds
      by (simp add: generateSelector_def NewHint_def AssertIsEqual_def)
  qed
qed

lemma satisfied_append:
  "satisfied P env (xs @ ys) \<longleftrightarrow> satisfied P env xs \<and> satisfied P env ys"
  by (simp add: satisfied_def)

lemma satisfied_map_upt:
  "satisfied P env (map c [0..<n]) \<longleftrightarrow> (\<forall>j<n. holds P env (c j))"
  by (auto simp: satisfied_def list_all_iff)

lemma satisfied_single: "satisfied P env [c] \<longleftrightarrow> holds P env c"
  by (simp add: satisfied_def)

text \<open>One-hot soundness, on the values of the expressions.\<close>

lemma one_hot_sound:
  assumes prime: "is_prime P"
    and k: "k < n"
    and key_k: "eval P env sel = eval P env (key k)"
    and key_ne: "\<And>j. j < n \<Longrightarrow> j \<noteq> k \<Longrightarrow> eval P env (key j) \<noteq> eval P env (key k)"
    and zero: "\<And>j. j < n \<Longrightarrow> holds P env (IsEqual (Mul (ind j) (Sub sel (key j))) (Const 0))"
    and one: "holds P env (IsEqual (foldl (\<lambda>acc j. Add acc (ind j)) (Const 0) [0..<n]) (Const 1))"
  shows "eval P env (ind k) = 1 \<and>
         (\<forall>j<n. j \<noteq> k \<longrightarrow> eval P env (ind j) = 0) \<and>
         eval P env (foldl (\<lambda>acc j. Add acc (Mul (ind j) (val j))) (Const 0) [0..<n]) =
           eval P env (val k)"
proof -
  from prime have P1: "1 < P" by (simp add: is_prime_def)
  then have P0: "0 < P" by simp
  have z: "eval P env (ind j) = 0" if "j < n" "j \<noteq> k" for j
  proof -
    from zero [OF that(1)]
    have "(eval P env (ind j) * ((eval P env sel - eval P env (key j)) mod P)) mod P = 0"
      by simp
    moreover have "eval P env sel \<noteq> eval P env (key j)"
      using key_ne [OF that] key_k by simp
    ultimately show ?thesis
      using eval_range [OF P0, of env "ind j"] eval_range [OF P0, of env sel]
        eval_range [OF P0, of env "key j"]
      by (intro field_zero_product [OF prime, of "eval P env (ind j)" "eval P env sel"
            "eval P env (key j)"]) simp_all
  qed
  have "sum_list (map (\<lambda>j. eval P env (ind j)) [0..<n]) = eval P env (ind k)"
    using k z by (intro sum_list_single) auto
  moreover from one
  have "(sum_list (map (\<lambda>j. eval P env (ind j)) [0..<n])) mod P = 1"
    using P1 by (simp add: eval_foldl_Add)
  ultimately have ik: "eval P env (ind k) = 1"
    by (simp add: eval_mod_id)
  have "sum_list (map (\<lambda>j. eval P env (Mul (ind j) (val j))) [0..<n]) =
          eval P env (Mul (ind k) (val k))"
    using k z by (intro sum_list_single) auto
  then have "eval P env (foldl (\<lambda>acc j. Add acc (Mul (ind j) (val j))) (Const 0) [0..<n]) =
          eval P env (Mul (ind k) (val k)) mod P"
    by (simp add: eval_foldl_Add)
  also have "\<dots> = eval P env (val k)"
    using ik by (simp add: eval_mod_id)
  finally have "eval P env (foldl (\<lambda>acc j. Add acc (Mul (ind j) (val j))) (Const 0) [0..<n]) =
           eval P env (val k)" .
  with ik z show ?thesis by blast
qed

lemma Map_sound:
  assumes prime: "is_prime P"
    and run: "Map queryKey keys values cs = Inr ((out, indicators), cs')"
    and dist: "distinct (map (eval P env) keys)"
    and k: "k < length keys"
    and q: "eval P env queryKey = eval P env (keys ! k)"
    and sat: "satisfied P env (emitted cs cs')"
  shows "length indicators = length keys \<and>
         eval P env (indicators ! k) = 1 \<and>
         (\<forall>j<length keys. j \<noteq> k \<longrightarrow> eval P env (indicators ! j) = 0) \<and>
         eval P env out = eval P env (values ! k)"
proof -
  let ?n = "length keys"
  let ?inds = "map Var [nextVar cs ..< nextVar cs + ?n]"
  from run have len: "length keys = length values"
    by (auto simp: Map_def split: if_splits)
  with run have gen: "generateSelector False queryKey keys values cs = Inr ((out, indicators), cs')"
    by (simp add: Map_def)
  have shape: "\<not> (False \<and> length values = 2)" "False \<or> length keys \<le> length values"
    "?n = (if False then length values else length keys)"
    using len by simp_all
  note closed = generateSelector_Inr [OF shape refl, where sel = queryKey and cs = cs]
  have "Inr ((out, indicators), cs') = generateSelector False queryKey keys values cs"
    using gen by simp
  also note closed
  finally have out: "out = foldl (\<lambda>acc j. Add acc (Mul (?inds ! j) (values ! j))) (Const 0) [0..<?n]"
    and inds: "indicators = ?inds"
    and cs': "cs' = cs\<lparr>nextVar := nextVar cs + ?n,
             hintCalls := hintCalls cs @
               [\<lparr>hFn = (if False then MuxIndicators else MapIndicators),
                 hInputs = (if False then [queryKey] else keys @ [queryKey]),
                 hFirst = nextVar cs, hCount = ?n\<rparr>],
             constraints := constraints cs @
               map (\<lambda>j. IsEqual (Mul (?inds ! j)
                                    (Sub queryKey (if False then Const (int j) else keys ! j)))
                                 (Const 0)) [0..<?n] @
               [IsEqual (foldl (\<lambda>acc j. Add acc (?inds ! j)) (Const 0) [0..<?n]) (Const 1)]\<rparr>"
    by (simp_all only: sum.inject prod.inject)
  have em: "emitted cs cs' =
       map (\<lambda>j. IsEqual (Mul (?inds ! j) (Sub queryKey (keys ! j))) (Const 0)) [0..<?n] @
       [IsEqual (foldl (\<lambda>acc j. Add acc (?inds ! j)) (Const 0) [0..<?n]) (Const 1)]"
    unfolding cs' emitted_def by simp
  from sat have zero: "\<And>j. j < ?n \<Longrightarrow>
        holds P env (IsEqual (Mul (?inds ! j) (Sub queryKey (keys ! j))) (Const 0))"
    and one: "holds P env (IsEqual (foldl (\<lambda>acc j. Add acc (?inds ! j)) (Const 0) [0..<?n]) (Const 1))"
    unfolding em satisfied_append satisfied_map_upt satisfied_single by blast+
  have ne: "eval P env (keys ! j) \<noteq> eval P env (keys ! k)" if "j < ?n" "j \<noteq> k" for j
    using dist that k by (simp add: distinct_conv_nth)
  note oh = one_hot_sound [where ind = "\<lambda>j. ?inds ! j" and key = "\<lambda>j. keys ! j"
      and val = "\<lambda>j. values ! j", OF prime k q ne zero one]
  show ?thesis
    using oh inds out by simp
qed

lemma Mux_sound:
  assumes prime: "is_prime P"
    and run: "Mux sel inputs cs = Inr ((out, indicators), cs')"
    and n3: "3 \<le> length inputs"
    and nP: "int (length inputs) \<le> P"
    and k: "k < length inputs"
    and q: "eval P env sel = int k"
    and sat: "satisfied P env (emitted cs cs')"
  shows "length indicators = length inputs \<and>
         eval P env (indicators ! k) = 1 \<and>
         (\<forall>j<length inputs. j \<noteq> k \<longrightarrow> eval P env (indicators ! j) = 0) \<and>
         eval P env out = eval P env (inputs ! k)"
proof -
  let ?n = "length inputs"
  let ?inds = "map Var [nextVar cs ..< nextVar cs + ?n]"
  from run have gen: "generateSelector True sel [] inputs cs = Inr ((out, indicators), cs')"
    by (simp add: Mux_def)
  have shape: "\<not> (True \<and> length inputs = 2)" "True \<or> length ([]::expr list) \<le> length inputs"
    "?n = (if True then length inputs else length ([]::expr list))"
    using n3 by simp_all
  note closed = generateSelector_Inr [OF shape refl, where sel = sel and cs = cs]
  have "Inr ((out, indicators), cs') = generateSelector True sel [] inputs cs"
    using gen by simp
  also note closed
  finally have out: "out = foldl (\<lambda>acc j. Add acc (Mul (?inds ! j) (inputs ! j))) (Const 0) [0..<?n]"
    and inds: "indicators = ?inds"
    and cs': "cs' = cs\<lparr>nextVar := nextVar cs + ?n,
             hintCalls := hintCalls cs @
               [\<lparr>hFn = (if True then MuxIndicators else MapIndicators),
                 hInputs = (if True then [sel] else [] @ [sel]),
                 hFirst = nextVar cs, hCount = ?n\<rparr>],
             constraints := constraints cs @
               map (\<lambda>j. IsEqual (Mul (?inds ! j)
                                    (Sub sel (if True then Const (int j) else [] ! j)))
                                 (Const 0)) [0..<?n] @
               [IsEqual (foldl (\<lambda>acc j. Add acc (?inds ! j)) (Const 0) [0..<?n]) (Const 1)]\<rparr>"
    by (simp_all only: sum.inject prod.inject)
  have em: "emitted cs cs' =
       map (\<lambda>j. IsEqual (Mul (?inds ! j) (Sub sel (Const (int j)))) (Const 0)) [0..<?n] @
       [IsEqual (foldl (\<lambda>acc j. Add acc (?inds ! j)) (Const 0) [0..<?n]) (Const 1)]"
    unfolding cs' emitted_def by simp
  from sat have zero: "\<And>j. j < ?n \<Longrightarrow>
        holds P env (IsEqual (Mul (?inds ! j) (Sub sel (Const (int j)))) (Const 0))"
    and one: "holds P env (IsEqual (foldl (\<lambda>acc j. Add acc (?inds ! j)) (Const 0) [0..<?n]) (Const 1))"
    unfolding em satisfied_append satisfied_map_upt satisfied_single by blast+
  have idx: "eval P env (Const (int j)) = int j" if "j < ?n" for j
    using that nP by simp
  have q': "eval P env sel = eval P env (Const (int k))"
    using q idx [OF k] by simp
  have ne: "eval P env (Const (int j)) \<noteq> eval P env (Const (int k))" if "j < ?n" "j \<noteq> k" for j
    using that idx [OF that(1)] idx [OF k] by simp
  note oh = one_hot_sound [where ind = "\<lambda>j. ?inds ! j" and key = "\<lambda>j. Const (int j)"
      and val = "\<lambda>j. inputs ! j", OF prime k q' ne zero one]
  show ?thesis
    using oh inds out by simp
qed

lemma Map_example:
  "Map (Const 7) [Const 3, Const 7, Const 9] [Const 30, Const 70, Const 90] emptyBuilder =
     Inr ((Add (Add (Add (Const 0) (Mul (Var 0) (Const 30))) (Mul (Var 1) (Const 70)))
             (Mul (Var 2) (Const 90)),
           [Var 0, Var 1, Var 2]),
          \<lparr>nextVar = 3,
           hintCalls = [\<lparr>hFn = MapIndicators, hInputs = [Const 3, Const 7, Const 9, Const 7],
                         hFirst = 0, hCount = 3\<rparr>],
           constraints =
             [IsEqual (Mul (Var 0) (Sub (Const 7) (Const 3))) (Const 0),
              IsEqual (Mul (Var 1) (Sub (Const 7) (Const 7))) (Const 0),
              IsEqual (Mul (Var 2) (Sub (Const 7) (Const 9))) (Const 0),
              IsEqual (Add (Add (Add (Const 0) (Var 0)) (Var 1)) (Var 2)) (Const 1)]\<rparr>)"
  by (simp add: Map_def generateSelector_def NewHint_def emptyBuilder_def selectorLoop.simps
      AssertIsEqual_def upt_rec)

lemma Mux_example:
  "Mux (Const 1) [Const 10, Const 20, Const 30] emptyBuilder =
     Inr ((Add (Add (Add (Const 0) (Mul (Var 0) (Const 10))) (Mul (Var 1) (Const 20)))
             (Mul (Var 2) (Const 30)),
           [Var 0, Var 1, Var 2]),
          \<lparr>nextVar = 3,
           hintCalls = [\<lparr>hFn = MuxIndicators, hInputs = [Const 1], hFirst = 0, hCount = 3\<rparr>],
           constraints =
             [IsEqual (Mul (Var 0) (Sub (Const 1) (Const 0))) (Const 0),
              IsEqual (Mul (Var 1) (Sub (Const 1) (Const 1))) (Const 0),
              IsEqual (Mul (Var 2) (Sub (Const 1) (Const 2))) (Const 0),
              IsEqual (Add (Add (Add (Const 0) (Var 0)) (Var 1)) (Var 2)) (Const 1)]\<rparr>)"
  by (simp add: Mux_def generateSelector_def NewHint_def emptyBuilder_def selectorLoop.simps
      AssertIsEqual_def upt_rec)

text \<open>
  C3, as stated, at a call of \<open>Mux\<close> with more inputs than the field has elements:
  in the field of order 3, with sel = 0 and four inputs, the indices 0 and 3 are the
  same field element, so the assignment that sets the indicator of index 3 to 1 and
  the others to 0 satisfies every emitted constraint, while indicator[0] is 0 and the
  output is inputs[3] = 1, not inputs[0] = 0.
\<close>

theorem Mux_more_inputs_than_field_elements:
  "is_prime 3 \<and>
   3 \<le> length [Const 0, Const 1, Const 2, Const 1] \<and>
   0 < length [Const 0, Const 1, Const 2, Const 1] \<and>
   eval 3 (envOf [0, 0, 0, 1]) (Const 0) = int 0 \<and>
   snd (fst (projr (Mux (Const 0) [Const 0, Const 1, Const 2, Const 1] emptyBuilder))) =
     [Var 0, Var 1, Var 2, Var 3] \<and>
   satisfied 3 (envOf [0, 0, 0, 1]) (emitted emptyBuilder (snd (projr
     (Mux (Const 0) [Const 0, Const 1, Const 2, Const 1] emptyBuilder)))) \<and>
   eval 3 (envOf [0, 0, 0, 1]) (Var 0) = 0 \<and>
   eval 3 (envOf [0, 0, 0, 1]) (Var 3) = 1 \<and>
   eval 3 (envOf [0, 0, 0, 1]) (fst (fst (projr
     (Mux (Const 0) [Const 0, Const 1, Const 2, Const 1] emptyBuilder)))) = 1 \<and>
   eval 3 (envOf [0, 0, 0, 1]) ([Const 0, Const 1, Const 2, Const 1] ! 0) = 0"
proof -
  have p: "is_prime 3" by code_simp
  have m: "Mux (Const 0) [Const 0, Const 1, Const 2, Const 1] emptyBuilder =
     Inr ((Add (Add (Add (Add (Const 0) (Mul (Var 0) (Const 0))) (Mul (Var 1) (Const 1)))
             (Mul (Var 2) (Const 2))) (Mul (Var 3) (Const 1)),
           [Var 0, Var 1, Var 2, Var 3]),
          \<lparr>nextVar = 4,
           hintCalls = [\<lparr>hFn = MuxIndicators, hInputs = [Const 0], hFirst = 0, hCount = 4\<rparr>],
           constraints =
             [IsEqual (Mul (Var 0) (Sub (Const 0) (Const 0))) (Const 0),
              IsEqual (Mul (Var 1) (Sub (Const 0) (Const 1))) (Const 0),
              IsEqual (Mul (Var 2) (Sub (Const 0) (Const 2))) (Const 0),
              IsEqual (Mul (Var 3) (Sub (Const 0) (Const 3))) (Const 0),
              IsEqual (Add (Add (Add (Add (Const 0) (Var 0)) (Var 1)) (Var 2)) (Var 3))
                (Const 1)]\<rparr>)"
    by (simp add: Mux_def generateSelector_def NewHint_def emptyBuilder_def selectorLoop.simps
        AssertIsEqual_def upt_rec)
  show ?thesis
    using p unfolding m by (simp add: emitted_def emptyBuilder_def satisfied_def envOf_def)
qed

text \<open>
  C3, amended: in a field of prime order P, for \<open>Map\<close> with keys whose values are
  pairwise distinct and queryKey equal to keys[k], every assignment that satisfies
  the constraints emitted by the call has indicator[k] = 1, indicator[j] = 0 for
  every other j, and out = values[k]; the same holds for \<open>Mux\<close> with n inputs,
  3 \<le> n \<le> P, and sel = k < n.
\<close>

theorem selector_pins_one_indicator:
  "(is_prime P \<and> Map queryKey keys values cs = Inr ((out, indicators), cs') \<and>
    distinct (map (eval P env) keys) \<and> k < length keys \<and>
    eval P env queryKey = eval P env (keys ! k) \<and> satisfied P env (emitted cs cs') \<longrightarrow>
      length indicators = length keys \<and>
      eval P env (indicators ! k) = 1 \<and>
      (\<forall>j<length keys. j \<noteq> k \<longrightarrow> eval P env (indicators ! j) = 0) \<and>
      eval P env out = eval P env (values ! k)) \<and>
   (is_prime P \<and> Mux sel inputs cs = Inr ((out, indicators), cs') \<and>
    3 \<le> length inputs \<and> int (length inputs) \<le> P \<and> k < length inputs \<and>
    eval P env sel = int k \<and> satisfied P env (emitted cs cs') \<longrightarrow>
      length indicators = length inputs \<and>
      eval P env (indicators ! k) = 1 \<and>
      (\<forall>j<length inputs. j \<noteq> k \<longrightarrow> eval P env (indicators ! j) = 0) \<and>
      eval P env out = eval P env (inputs ! k))"
proof (rule conjI)
  show "is_prime P \<and> Map queryKey keys values cs = Inr ((out, indicators), cs') \<and>
    distinct (map (eval P env) keys) \<and> k < length keys \<and>
    eval P env queryKey = eval P env (keys ! k) \<and> satisfied P env (emitted cs cs') \<longrightarrow>
      length indicators = length keys \<and>
      eval P env (indicators ! k) = 1 \<and>
      (\<forall>j<length keys. j \<noteq> k \<longrightarrow> eval P env (indicators ! j) = 0) \<and>
      eval P env out = eval P env (values ! k)"
    using Map_sound [of P queryKey keys "values" cs out indicators cs' env k] by blast
  show "is_prime P \<and> Mux sel inputs cs = Inr ((out, indicators), cs') \<and>
    3 \<le> length inputs \<and> int (length inputs) \<le> P \<and> k < length inputs \<and>
    eval P env sel = int k \<and> satisfied P env (emitted cs cs') \<longrightarrow>
      length indicators = length inputs \<and>
      eval P env (indicators ! k) = 1 \<and>
      (\<forall>j<length inputs. j \<noteq> k \<longrightarrow> eval P env (indicators ! j) = 0) \<and>
      eval P env out = eval P env (inputs ! k)"
    using Mux_sound [of P sel inputs cs out indicators cs' k env] by blast
qed

theorem selector_pins_one_indicator_witness:
  "is_prime 97 \<and>
   distinct (map (eval 97 (envOf [0, 1, 0])) [Const 3, Const 7, Const 9]) \<and>
   eval 97 (envOf [0, 1, 0]) (Const 7) = eval 97 (envOf [0, 1, 0]) ([Const 3, Const 7, Const 9] ! 1) \<and>
   int (length [Const 10, Const 20, Const 30]) \<le> 97 \<and>
   eval 97 (envOf [0, 1, 0]) (Const 1) = int 1 \<and>
   satisfied 97 (envOf [0, 1, 0]) (emitted emptyBuilder (snd (projr
     (Map (Const 7) [Const 3, Const 7, Const 9] [Const 30, Const 70, Const 90] emptyBuilder)))) \<and>
   map (eval 97 (envOf [0, 1, 0])) (snd (fst (projr
     (Map (Const 7) [Const 3, Const 7, Const 9] [Const 30, Const 70, Const 90] emptyBuilder))))
     = [0, 1, 0] \<and>
   eval 97 (envOf [0, 1, 0]) (fst (fst (projr
     (Map (Const 7) [Const 3, Const 7, Const 9] [Const 30, Const 70, Const 90] emptyBuilder))))
     = 70 \<and>
   satisfied 97 (envOf [0, 1, 0]) (emitted emptyBuilder (snd (projr
     (Mux (Const 1) [Const 10, Const 20, Const 30] emptyBuilder)))) \<and>
   map (eval 97 (envOf [0, 1, 0])) (snd (fst (projr
     (Mux (Const 1) [Const 10, Const 20, Const 30] emptyBuilder)))) = [0, 1, 0] \<and>
   eval 97 (envOf [0, 1, 0]) (fst (fst (projr
     (Mux (Const 1) [Const 10, Const 20, Const 30] emptyBuilder)))) = 20"
proof -
  have p: "is_prime 97" by code_simp
  let ?M = "Map (Const 7) [Const 3, Const 7, Const 9] [Const 30, Const 70, Const 90] emptyBuilder"
  let ?X = "Mux (Const 1) [Const 10, Const 20, Const 30] emptyBuilder"
  note m = selector_pins_one_indicator [of 97 "Const 7" "[Const 3, Const 7, Const 9]"
      "[Const 30, Const 70, Const 90]" emptyBuilder "fst (fst (projr ?M))" "snd (fst (projr ?M))"
      "snd (projr ?M)" "envOf [0, 1, 0]" 1, THEN conjunct1]
  note x = selector_pins_one_indicator [of 97 _ _ _ emptyBuilder "fst (fst (projr ?X))"
      "snd (fst (projr ?X))" "snd (projr ?X)" "envOf [0, 1, 0]" 1 "Const 1"
      "[Const 10, Const 20, Const 30]", THEN conjunct2]
  show ?thesis
    using p m x unfolding Map_example Mux_example
    by (simp add: emitted_def emptyBuilder_def satisfied_def envOf_def)
qed

section \<open>The comparator within its bound\<close>

text \<open>
  What the constructor has checked: the bound D is below 2^L, and P - D - 1, the
  smallest value a negative difference can take in the field, is at least 2^L, where
  L = absDiffUppBitLen.
\<close>

lemma comparator_bounds:
  assumes "NewBoundedComparator P D allowNonDeterminism = Inr bc"
  shows "0 < D \<and> absDiffUppBitLen bc = BitLen D \<and> D < 2 ^ BitLen D \<and>
         2 ^ BitLen D \<le> P - D - 1"
proof -
  from assms have pos: "0 < D" and lt: "D < P" and len: "absDiffUppBitLen bc = BitLen D"
    and big: "\<not> BitLen (P - D - 1) \<le> BitLen D"
    by (auto simp: NewBoundedComparator_def Cmp_def Let_def split: if_splits)
  from pos have "D < 2 ^ BitLen D"
    using BitLen_le_iff [of D "BitLen D"] by simp
  moreover from lt big have "2 ^ BitLen D \<le> P - D - 1"
    using BitLen_le_iff [of "P - D - 1" "BitLen D"] by simp
  ultimately show ?thesis using pos len by simp
qed

text \<open>
  The decomposition into L bits therefore tells the sign of a difference d with
  -(D + 1) \<le> d \<le> D.
\<close>

lemma range_check:
  fixes d :: int
  assumes "D < 2 ^ L" and "2 ^ L \<le> P - D - 1" and "- (D + 1) \<le> d" and "d \<le> D"
  shows "d mod P < 2 ^ L \<longleftrightarrow> 0 \<le> d"
proof (cases "0 \<le> d")
  case True
  with assms have "d mod P = d" by (intro mod_pos_pos_trivial) linarith+
  with True assms show ?thesis by simp
next
  case False
  with assms have "(d + P) mod P = d + P" by (intro mod_pos_pos_trivial) linarith+
  then have "d mod P = d + P" by simp
  with False assms show ?thesis by simp
qed

lemma signedRep_mod: "signedRep P v mod P = v mod P"
  by (simp add: signedRep_def)

lemma signed_diff_mod:
  "(signedRep P x - signedRep P y + c) mod P = (x - y + c) mod P"
proof -
  have "(signedRep P x - signedRep P y) mod P = (x - y) mod P"
    by (rule mod_diff_cong) (rule signedRep_mod)+
  then show ?thesis by (rule mod_add_cong) simp
qed

lemma signedRep_rep: "signedRep P (eval P env x) mod P = eval P env x"
  by (simp add: signedRep_mod eval_mod_id)

lemma signedRep_inj:
  fixes x y P :: int
  assumes "0 \<le> x" "x < P" "0 \<le> y" "y < P" and "signedRep P x = signedRep P y"
  shows "x = y"
proof -
  have "x mod P = signedRep P x mod P" by (rule signedRep_mod [symmetric])
  also have "\<dots> = signedRep P y mod P" by (simp only: assms(5))
  also have "\<dots> = y mod P" by (rule signedRep_mod)
  finally have "x mod P = y mod P" .
  moreover have "x mod P = x" using assms(1,2) by (rule mod_pos_pos_trivial)
  moreover have "y mod P = y" using assms(3,4) by (rule mod_pos_pos_trivial)
  ultimately show ?thesis by linarith
qed

lemma signedRep_succ:
  assumes "0 \<le> v" "v < P" "v \<noteq> (P - 1) div 2"
  shows "signedRep P ((v + 1) mod P) = signedRep P v + 1"
proof (cases "v = P - 1")
  case True
  with assms have "1 < P" by (cases "P = 1") auto
  with True show ?thesis by (simp add: signedRep_def)
next
  case False
  with assms have "(v + 1) mod P = v + 1" by (intro mod_pos_pos_trivial) linarith+
  with assms show ?thesis by (auto simp: signedRep_def)
qed

text \<open>
  \<open>cmpInField\<close> against the order of the signed interpretations, by cases on the
  position of a and b relative to h = P >> 1. The two orders differ only when one
  operand is h and the other lies on the far side of it.
\<close>

lemma cmp_core:
  fixes a b h m P :: int
  assumes "2 * h \<le> P" "P \<le> 2 * h + 1" "2 * m \<le> P - 1" "P \<le> 2 * m + 2"
    and "0 \<le> a" "a < P" "0 \<le> b" "b < P"
    and "\<not> (a = h \<and> h < b \<and> h = m)" and "\<not> (b = h \<and> h < a \<and> h = m)"
    and "\<not> (a = h \<and> b < h \<and> h \<noteq> m)" and "\<not> (b = h \<and> a < h \<and> h \<noteq> m)"
  shows "(if Cmp a h * Cmp b h = - 1 then - Cmp a b else Cmp a b) =
         Cmp (if a \<le> m then a else a - P) (if b \<le> m then b else b - P)"
proof -
  consider "a < h" "b < h" | "a < h" "b = h" | "a < h" "h < b"
    | "a = h" "b < h" | "a = h" "b = h" | "a = h" "h < b"
    | "h < a" "b < h" | "h < a" "b = h" | "h < a" "h < b"
    by linarith
  then show ?thesis
  proof cases
    case 1 with assms show ?thesis by (simp add: Cmp_def)
  next
    case 2 with assms show ?thesis by (simp add: Cmp_def)
  next
    case 3 with assms show ?thesis by (simp add: Cmp_def)
  next
    case 4 with assms show ?thesis by (simp add: Cmp_def)
  next
    case 5 with assms show ?thesis by (simp add: Cmp_def)
  next
    case 6 with assms show ?thesis by (simp add: Cmp_def)
  next
    case 7 with assms show ?thesis by (simp add: Cmp_def)
  next
    case 8 with assms show ?thesis by (simp add: Cmp_def)
  next
    case 9 with assms show ?thesis by (simp add: Cmp_def)
  qed
qed

lemma half_bounds:
  fixes P :: int
  shows "2 * (P div 2) \<le> P" "P \<le> 2 * (P div 2) + 1"
    "2 * ((P - 1) div 2) \<le> P - 1" "P \<le> 2 * ((P - 1) div 2) + 2"
  by presburger+

lemma cmpInField_unfold:
  "cmpInField a b P =
     (if Cmp a (P div 2) * Cmp b (P div 2) = - 1 then - Cmp a b else Cmp a b)"
  by (simp add: cmpInField_def Rsh_def Let_def)

lemma cmpInField_signed_gen:
  assumes rng: "0 \<le> a" "a < P" "0 \<le> b" "b < P"
    and lo: "- (D + 1) \<le> signedRep P a - signedRep P b"
    and hi: "signedRep P a - signedRep P b \<le> D"
    and P: "2 * D + 1 < P"
    and par: "odd P \<or> - D \<le> signedRep P a - signedRep P b"
  shows "cmpInField a b P = Cmp (signedRep P a) (signedRep P b)"
proof -
  define h where "h = P div 2"
  define m where "m = (P - 1) div 2"
  have hm: "2 * h \<le> P" "P \<le> 2 * h + 1" "2 * m \<le> P - 1" "P \<le> 2 * m + 2"
    unfolding h_def m_def by (rule half_bounds)+
  have odd_hm: "h = m" if "odd P"
    using that unfolding h_def m_def by presburger
  have sa: "signedRep P a = (if a \<le> m then a else a - P)"
    and sb: "signedRep P b = (if b \<le> m then b else b - P)"
    by (simp_all add: signedRep_def m_def)
  have e1: "\<not> (a = h \<and> h < b \<and> h = m)"
    using lo hi hm rng P unfolding sa sb by (auto split: if_splits)
  have e2: "\<not> (b = h \<and> h < a \<and> h = m)"
    using lo hi hm rng P par odd_hm unfolding sa sb by (auto split: if_splits)
  have e3: "\<not> (a = h \<and> b < h \<and> h \<noteq> m)"
    using lo hi hm rng P par odd_hm unfolding sa sb by (auto split: if_splits)
  have e4: "\<not> (b = h \<and> a < h \<and> h \<noteq> m)"
    using lo hi hm rng P par odd_hm unfolding sa sb by (auto split: if_splits)
  show ?thesis
    unfolding cmpInField_unfold sa sb
    using cmp_core [OF hm rng e1 e2 e3 e4] by (simp add: h_def)
qed

lemma cmpInField_signed:
  assumes "0 \<le> a" "a < P" "0 \<le> b" "b < P"
    and "\<bar>signedRep P a - signedRep P b\<bar> \<le> D" and "2 * D + 1 < P"
  shows "cmpInField a b P = Cmp (signedRep P a) (signedRep P b)"
  using assms by (intro cmpInField_signed_gen [where D = D]) auto

text \<open>
  In every field of odd order, \<open>cmpInField\<close> puts h = P >> 1, the largest positive
  element, below every negative element.
\<close>

lemma cmpInField_at_half:
  assumes "odd P" and "P div 2 < b" and "b < P"
  shows "cmpInField (P div 2) b P = - 1 \<and> Cmp (signedRep P (P div 2)) (signedRep P b) = 1"
proof -
  define h where "h = P div 2"
  from assms(1) have hP: "P = 2 * h + 1" and hm: "(P - 1) div 2 = h"
    unfolding h_def by presburger+
  from assms(2,3) have b: "h < b" "b < 2 * h + 1"
    unfolding h_def [symmetric] hP [symmetric] by simp_all
  then have h0: "0 < h" by linarith
  have "cmpInField h b P = - 1"
    using b by (simp add: cmpInField_unfold h_def [symmetric] Cmp_def)
  moreover have "signedRep P h = h" and "signedRep P b = b - P"
    using b by (simp_all add: signedRep_def hm)
  then have "Cmp (signedRep P h) (signedRep P b) = 1"
    using b h0 hP by (simp add: Cmp_def)
  ultimately show ?thesis unfolding h_def by simp
qed

lemma Cmp_less: "Cmp x y = - 1 \<longleftrightarrow> x < y"
  by (simp add: Cmp_def)

lemma isLessOutputHint_eq:
  "isLessOutputHint P [x, y] [0] = Inr [if cmpInField x y P = - 1 then 1 else 0]"
  by (simp add: isLessOutputHint_def)

lemma minOutputHint_eq:
  "minOutputHint P [x, y] [0] = Inr [if cmpInField x y P = - 1 then x else y]"
  by (simp add: minOutputHint_def)

section \<open>AssertIsLessEq and AssertIsLess within the bound\<close>

lemma emitted_AssertIsLessEq:
  "emitted (api st) (api (AssertIsLessEq a b st)) =
     [HasBitLen (absDiffUppBitLen (self st)) (Sub b a)]"
  by (simp add: emitted_def AssertIsLessEq_def assertIsNonNegative_def AssertBitLen_def
      ToBinary_def)

lemma emitted_AssertIsLess:
  "emitted (api st) (api (AssertIsLess a b st)) =
     [HasBitLen (absDiffUppBitLen (self st)) (Sub (Sub b (Const 1)) a)]"
  by (simp add: emitted_def AssertIsLess_def AssertIsLessEq_def assertIsNonNegative_def
      AssertBitLen_def ToBinary_def)

lemma eval_b_minus_a:
  "eval P env (Sub b a) =
     (signedRep P (eval P env b) - signedRep P (eval P env a)) mod P"
  using signed_diff_mod [of P "eval P env b" "eval P env a" 0] by simp

lemma eval_b_minus_1_minus_a:
  "eval P env (Sub (Sub b (Const 1)) a) =
     (signedRep P (eval P env b) - signedRep P (eval P env a) - 1) mod P"
proof -
  have "eval P env (Sub (Sub b (Const 1)) a) = (eval P env b - eval P env a + (- 1)) mod P"
    by (simp add: mod_simps algebra_simps)
  also have "\<dots> = (signedRep P (eval P env b) - signedRep P (eval P env a) + (- 1)) mod P"
    by (rule signed_diff_mod [symmetric])
  finally show ?thesis by simp
qed

text \<open>
  For operands whose signed interpretations differ by at most the bound, the
  constraint of \<open>AssertIsLessEq\<close> holds exactly when a \<le> b, and the constraint of
  \<open>AssertIsLess\<close> exactly when a < b.
\<close>

lemma AssertIsLessEq_iff:
  assumes bc: "NewBoundedComparator P D allowNonDeterminism = Inr (self st)"
    and diff: "\<bar>signedRep P (eval P env a) - signedRep P (eval P env b)\<bar> \<le> D"
  shows "satisfied P env (emitted (api st) (api (AssertIsLessEq a b st))) \<longleftrightarrow>
         signedRep P (eval P env a) \<le> signedRep P (eval P env b)"
proof -
  note b = comparator_bounds [OF bc]
  have "(signedRep P (eval P env b) - signedRep P (eval P env a)) mod P < 2 ^ BitLen D \<longleftrightarrow>
        0 \<le> signedRep P (eval P env b) - signedRep P (eval P env a)"
    using b diff by (intro range_check [where D = D]) linarith+
  then show ?thesis
    using b by (simp add: emitted_AssertIsLessEq satisfied_single eval_b_minus_a del: eval.simps)
qed

lemma AssertIsLess_iff:
  assumes bc: "NewBoundedComparator P D allowNonDeterminism = Inr (self st)"
    and diff: "\<bar>signedRep P (eval P env a) - signedRep P (eval P env b)\<bar> \<le> D"
  shows "satisfied P env (emitted (api st) (api (AssertIsLess a b st))) \<longleftrightarrow>
         signedRep P (eval P env a) < signedRep P (eval P env b)"
proof -
  note b = comparator_bounds [OF bc]
  have "(signedRep P (eval P env b) - signedRep P (eval P env a) - 1) mod P < 2 ^ BitLen D \<longleftrightarrow>
        0 \<le> signedRep P (eval P env b) - signedRep P (eval P env a) - 1"
    using b diff by (intro range_check [where D = D]) linarith+
  then show ?thesis
    using b
    by (simp add: emitted_AssertIsLess satisfied_single eval_b_minus_1_minus_a del: eval.simps)
qed

section \<open>IsLess and IsLessEq within the bound\<close>

lemma emitted_IsLess:
  assumes "IsLess a b st = Inr (r, st')"
  shows "r = Var (nextVar (api st)) \<and>
         emitted (api st) (api st') =
           [IsBoolean r,
            HasBitLen (absDiffUppBitLen (self st)) (Select r (Sub (Sub b a) (Const 1)) (Sub a b))]"
  using assms by (auto simp: IsLess_Inr emitted_def)

lemma eval_Sub_rep:
  assumes "s mod P = eval P env x" and "t mod P = eval P env y"
  shows "eval P env (Sub x y) = (s - t) mod P"
    and "eval P env (Sub (Sub y x) (Const 1)) = (t - s - 1) mod P"
proof -
  show "eval P env (Sub x y) = (s - t) mod P"
    by (simp add: assms [symmetric] mod_diff_eq)
  have "eval P env (Sub (Sub y x) (Const 1)) = ((t mod P - s mod P) mod P - 1 mod P) mod P"
    by (simp add: assms [symmetric])
  also have "\<dots> = (t - s - 1) mod P"
    by (simp add: mod_simps)
  finally show "eval P env (Sub (Sub y x) (Const 1)) = (t - s - 1) mod P" .
qed

lemma select_bit_core:
  fixes s t D P r :: int
  assumes b: "D < 2 ^ L" "2 ^ L \<le> P - D - 1" "0 < D"
    and rng: "- (D + 1) \<le> s - t" "s - t \<le> D"
    and r: "0 \<le> r" "r < P"
  shows "(r = 0 \<or> r = 1) \<and> ((s - t) mod P + r * ((t - s - 1) mod P - (s - t) mod P)) mod P < 2 ^ L
         \<longleftrightarrow> r = (if s < t then 1 else 0)"
proof -
  have P: "1 < P" using b by linarith
  have one: "(t - s - 1) mod P < 2 ^ L \<longleftrightarrow> 0 \<le> t - s - 1"
    using b rng by (intro range_check [where D = D]) linarith+
  have zero: "(s - t) mod P < 2 ^ L \<longleftrightarrow> 0 \<le> s - t"
    using b rng by (intro range_check [where D = D]) linarith+
  show ?thesis
  proof (cases "r = 1")
    case True
    then show ?thesis using one by (simp add: mod_simps)
  next
    case r1: False
    show ?thesis
    proof (cases "r = 0")
      case True
      then show ?thesis using zero by (simp add: mod_simps)
    next
      case False
      with r1 show ?thesis by simp
    qed
  qed
qed

lemma IsLess_values:
  assumes bc: "NewBoundedComparator P D allowNonDeterminism = Inr (self st)"
    and run: "IsLess x y st = Inr (r, st')"
    and s: "s mod P = eval P env x" and t: "t mod P = eval P env y"
    and rng: "- (D + 1) \<le> s - t" "s - t \<le> D"
  shows "satisfied P env (emitted (api st) (api st')) \<longleftrightarrow>
         eval P env r = (if s < t then 1 else 0)"
proof -
  note b = comparator_bounds [OF bc]
  from b have P0: "0 < P" by linarith
  note e = emitted_IsLess [OF run]
  note v = eval_Sub_rep [OF s t]
  have "satisfied P env (emitted (api st) (api st')) \<longleftrightarrow>
        (eval P env r = 0 \<or> eval P env r = 1) \<and>
        ((s - t) mod P + eval P env r * ((t - s - 1) mod P - (s - t) mod P)) mod P < 2 ^ BitLen D"
    using e b v by (simp add: satisfied_def del: eval.simps(4)) 
  also have "\<dots> \<longleftrightarrow> eval P env r = (if s < t then 1 else 0)"
    using b rng eval_range [OF P0, of env r]
    by (intro select_bit_core [where D = D]) simp_all
  finally show ?thesis .
qed

text \<open>
  The constraints of \<open>IsLess\<close> are satisfied by exactly one value of the returned
  bit, 1 when a < b and 0 otherwise, and \<open>isLessOutputHint\<close> computes that value.
\<close>

lemma IsLess_constraints:
  assumes bc: "NewBoundedComparator P D allowNonDeterminism = Inr (self st)"
    and diff: "\<bar>signedRep P (eval P env a) - signedRep P (eval P env b)\<bar> \<le> D"
    and run: "IsLess a b st = Inr (r, st')"
  shows "satisfied P env (emitted (api st) (api st')) \<longleftrightarrow>
         eval P env r = (if signedRep P (eval P env a) < signedRep P (eval P env b) then 1 else 0)"
  using diff by (intro IsLess_values [OF bc run signedRep_rep signedRep_rep]) linarith+

lemma IsLess_hint:
  assumes bc: "NewBoundedComparator P D allowNonDeterminism = Inr bc"
    and diff: "\<bar>signedRep P (eval P env a) - signedRep P (eval P env b)\<bar> \<le> D"
  shows "isLessOutputHint P [eval P env a, eval P env b] [0] =
         Inr [if signedRep P (eval P env a) < signedRep P (eval P env b) then 1 else 0]"
proof -
  note b = comparator_bounds [OF bc]
  from b have P0: "0 < P" and P: "2 * D + 1 < P" by linarith+
  have "cmpInField (eval P env a) (eval P env b) P =
        Cmp (signedRep P (eval P env a)) (signedRep P (eval P env b))"
    using eval_range [OF P0, of env a] eval_range [OF P0, of env b] diff P
    by (intro cmpInField_signed [where D = D]) simp_all
  then show ?thesis by (simp add: isLessOutputHint_eq Cmp_less)
qed

text \<open>
  The constraints of \<open>IsLessEq\<close> are likewise satisfied by exactly the bit that
  says whether a \<le> b. Its hint is run on a and b + 1: it computes that bit whenever
  b is not (P - 1) / 2, the largest positive element. When b is (P - 1) / 2 and a < b,
  b + 1 is the most negative element and the hint answers 0, the value the
  constraints reject.
\<close>

lemma IsLessEq_constraints:
  assumes bc: "NewBoundedComparator P D allowNonDeterminism = Inr (self st)"
    and diff: "\<bar>signedRep P (eval P env a) - signedRep P (eval P env b)\<bar> \<le> D"
    and run: "IsLessEq a b st = Inr (r, st')"
  shows "satisfied P env (emitted (api st) (api st')) \<longleftrightarrow>
         eval P env r = (if signedRep P (eval P env a) \<le> signedRep P (eval P env b) then 1 else 0)"
proof -
  from run have run': "IsLess a (Add b (Const 1)) st = Inr (r, st')"
    by (simp add: IsLessEq_def)
  have t: "(signedRep P (eval P env b) + 1) mod P = eval P env (Add b (Const 1))"
    using signedRep_rep [of P env b] by (simp add: mod_simps) (metis mod_add_left_eq)
  have "satisfied P env (emitted (api st) (api st')) \<longleftrightarrow>
        eval P env r =
          (if signedRep P (eval P env a) < signedRep P (eval P env b) + 1 then 1 else 0)"
    using diff by (intro IsLess_values [OF bc run' signedRep_rep t]) linarith+
  then show ?thesis by (simp add: zless_add1_eq) 
qed

lemma IsLessEq_hint:
  assumes bc: "NewBoundedComparator P D allowNonDeterminism = Inr bc"
    and diff: "\<bar>signedRep P (eval P env a) - signedRep P (eval P env b)\<bar> \<le> D"
    and odd: "odd P"
    and nb: "eval P env b \<noteq> (P - 1) div 2"
  shows "isLessOutputHint P [eval P env a, eval P env (Add b (Const 1))] [0] =
         Inr [if signedRep P (eval P env a) \<le> signedRep P (eval P env b) then 1 else 0]"
proof -
  note b = comparator_bounds [OF bc]
  from b have P0: "0 < P" and P: "2 * D + 1 < P" by linarith+
  note ra = eval_range [OF P0, of env a] and rb = eval_range [OF P0, of env b]
    and rb' = eval_range [OF P0, of env "Add b (Const 1)"]
  have "eval P env (Add b (Const 1)) = (eval P env b + 1) mod P"
    by (simp add: mod_simps)
  then have sb': "signedRep P (eval P env (Add b (Const 1))) = signedRep P (eval P env b) + 1"
    using signedRep_succ [of "eval P env b" P] rb nb by simp
  have lo: "- (D + 1) \<le> signedRep P (eval P env a) - signedRep P (eval P env (Add b (Const 1)))"
    and hi: "signedRep P (eval P env a) - signedRep P (eval P env (Add b (Const 1))) \<le> D"
    using diff unfolding sb' by linarith+
  have "cmpInField (eval P env a) (eval P env (Add b (Const 1))) P =
        Cmp (signedRep P (eval P env a)) (signedRep P (eval P env (Add b (Const 1))))"
    using ra rb' lo hi P odd
    by (intro cmpInField_signed_gen [where D = D]) blast+
  then show ?thesis
    unfolding sb' by (simp add: isLessOutputHint_eq Cmp_less del: eval.simps)
qed

lemma IsLessEq_hint_at_half:
  assumes bc: "NewBoundedComparator P D allowNonDeterminism = Inr bc"
    and diff: "\<bar>signedRep P (eval P env a) - signedRep P (eval P env b)\<bar> \<le> D"
    and odd: "odd P"
    and half: "eval P env b = (P - 1) div 2"
    and less: "signedRep P (eval P env a) < signedRep P (eval P env b)"
  shows "isLessOutputHint P [eval P env a, eval P env (Add b (Const 1))] [0] = Inr [0]"
proof -
  note b = comparator_bounds [OF bc]
  from b have P0: "0 < P" and P: "2 * D + 1 < P" by linarith+
  define h where "h = P div 2"
  from odd have hm: "(P - 1) div 2 = h" and hP: "P = 2 * h + 1"
    unfolding h_def by presburger+
  from P hP have Dh: "D < h" by linarith
  from half hm have eb: "eval P env b = h" by simp
  then have sb: "signedRep P (eval P env b) = h" by (simp add: signedRep_def hm)
  have "eval P env (Add b (Const 1)) = (h + 1) mod P"
    using eb by (simp add: mod_simps)
  also have "\<dots> = h + 1" using hP Dh b by (intro mod_pos_pos_trivial) linarith+
  finally have eb': "eval P env (Add b (Const 1)) = h + 1" .
  note ra = eval_range [OF P0, of env a]
  have ea: "0 < eval P env a \<and> eval P env a < h"
    using diff less ra Dh hP unfolding sb by (auto simp: signedRep_def hm split: if_splits)
  have "cmpInField (eval P env a) (h + 1) P = 1"
    using ea by (simp add: cmpInField_unfold Cmp_def h_def [symmetric])
  then show ?thesis
    unfolding eb' by (simp add: isLessOutputHint_eq)
qed

section \<open>Min within the bound\<close>

lemma emitted_Min_bc:
  assumes "Min_bc a b st = (r, st')"
  shows "r = Var (nextVar (api st)) \<and>
         emitted (api st) (api st') =
           [IsEqual (Mul (Sub a r) (Sub b r)) (Const 0),
            HasBitLen (absDiffUppBitLen (self st)) (Add (Sub a r) (Sub b r))]"
  using assms by (auto simp: Min_bc_eq emitted_def)

lemma field_diff_zero:
  fixes x y P :: int
  assumes "0 \<le> x" "x < P" "0 \<le> y" "y < P" and "P dvd (x - y) mod P"
  shows "x = y"
proof -
  from assms(5) have "P dvd x - y" by (simp add: dvd_mod_iff)
  then obtain c where c: "x - y = P * c" by (auto simp: dvd_def)
  from assms have "\<bar>x - y\<bar> < P" by linarith
  with c have "\<bar>P\<bar> * \<bar>c\<bar> < \<bar>P\<bar> * 1" using assms by (simp add: abs_mult)
  then have "\<bar>c\<bar> < 1" by (simp only: mult_less_cancel_left_disj) auto
  then have "c = 0" by simp
  with c show ?thesis by simp
qed

lemma min_core_sound:
  fixes a b r sa sb P D :: int
  assumes prime: "is_prime P"
    and ra: "0 \<le> a" "a < P" and rb: "0 \<le> b" "b < P" and rr: "0 \<le> r" "r < P"
    and ba: "(b - a) mod P < 2 ^ L \<longleftrightarrow> sa \<le> sb"
    and ab: "(a - b) mod P < 2 ^ L \<longleftrightarrow> sb \<le> sa"
    and inj: "sa = sb \<Longrightarrow> a = b"
    and z: "((a - r) mod P * ((b - r) mod P)) mod P = 0"
    and s: "((a - r) mod P + (b - r) mod P) mod P < 2 ^ L"
  shows "r = (if sa < sb then a else b)"
proof -
  from z have "P dvd (a - r) mod P * ((b - r) mod P)" by (simp add: dvd_eq_mod_eq_0)
  then have "P dvd (a - r) mod P \<or> P dvd (b - r) mod P"
    by (rule is_prime_dvd_mult [OF prime])
  then show ?thesis
  proof
    assume "P dvd (a - r) mod P"
    then have e: "a = r" by (rule field_diff_zero [OF ra rr])
    from s have "(b - a) mod P < 2 ^ L" unfolding e [symmetric] by simp
    with ba have le: "sa \<le> sb" by blast
    show ?thesis
    proof (cases "sa < sb")
      case True
      then show ?thesis using e by simp
    next
      case False
      with le have "sa = sb" by linarith
      then have "a = b" by (rule inj)
      then show ?thesis using e False by simp
    qed
  next
    assume "P dvd (b - r) mod P"
    then have e: "b = r" by (rule field_diff_zero [OF rb rr])
    from s have "(a - b) mod P < 2 ^ L" unfolding e [symmetric] by simp
    with ab have "sb \<le> sa" by blast
    then show ?thesis using e by simp
  qed
qed

lemma min_core_complete:
  fixes a b r sa sb P D :: int
  assumes ba: "(b - a) mod P < 2 ^ L \<longleftrightarrow> sa \<le> sb"
    and ab: "(a - b) mod P < 2 ^ L \<longleftrightarrow> sb \<le> sa"
    and r: "r = (if sa < sb then a else b)"
  shows "((a - r) mod P * ((b - r) mod P)) mod P = 0 \<and>
         ((a - r) mod P + (b - r) mod P) mod P < 2 ^ L"
proof (cases "sa < sb")
  case True
  with r have "r = a" by simp
  with ba True show ?thesis by simp
next
  case False
  with r have "r = b" by simp
  with ab False show ?thesis by simp
qed

lemma within_bound_differences:
  assumes bc: "NewBoundedComparator P D allowNonDeterminism = Inr bc"
    and diff: "\<bar>signedRep P x - signedRep P y\<bar> \<le> D"
  shows "(y - x) mod P < 2 ^ BitLen D \<longleftrightarrow> signedRep P x \<le> signedRep P y"
    and "(x - y) mod P < 2 ^ BitLen D \<longleftrightarrow> signedRep P y \<le> signedRep P x"
proof -
  note b = comparator_bounds [OF bc]
  have "(signedRep P y - signedRep P x) mod P < 2 ^ BitLen D \<longleftrightarrow>
        0 \<le> signedRep P y - signedRep P x"
    using b diff by (intro range_check [where D = D]) linarith+
  moreover have "(signedRep P y - signedRep P x) mod P = (y - x) mod P"
    using signed_diff_mod [of P y x 0] by simp
  ultimately show "(y - x) mod P < 2 ^ BitLen D \<longleftrightarrow> signedRep P x \<le> signedRep P y"
    by simp
  have "(signedRep P x - signedRep P y) mod P < 2 ^ BitLen D \<longleftrightarrow>
        0 \<le> signedRep P x - signedRep P y"
    using b diff by (intro range_check [where D = D]) linarith+
  moreover have "(signedRep P x - signedRep P y) mod P = (x - y) mod P"
    using signed_diff_mod [of P x y 0] by simp
  ultimately show "(x - y) mod P < 2 ^ BitLen D \<longleftrightarrow> signedRep P y \<le> signedRep P x"
    by simp
qed

lemma satisfied_Min_bc:
  assumes run: "Min_bc a b st = (r, st')" and "0 < P"
  shows "satisfied P env (emitted (api st) (api st')) \<longleftrightarrow>
        ((eval P env a - eval P env r) mod P * ((eval P env b - eval P env r) mod P)) mod P = 0 \<and>
        ((eval P env a - eval P env r) mod P + (eval P env b - eval P env r) mod P) mod P
          < 2 ^ absDiffUppBitLen (self st)"
proof -
  from emitted_Min_bc [OF run]
  have em: "emitted (api st) (api st') =
           [IsEqual (Mul (Sub a r) (Sub b r)) (Const 0),
            HasBitLen (absDiffUppBitLen (self st)) (Add (Sub a r) (Sub b r))]"
    by (rule conjunct2)
  show ?thesis
    unfolding em satisfied_def using assms(2) by simp
qed

text \<open>
  In a field of prime order, the constraints of \<open>Min\<close> are satisfied by exactly
  one value of the returned variable, the operand with the smaller signed
  interpretation, and \<open>minOutputHint\<close> computes that value.
\<close>

lemma Min_constraints:
  assumes prime: "is_prime P"
    and bc: "NewBoundedComparator P D allowNonDeterminism = Inr (self st)"
    and diff: "\<bar>signedRep P (eval P env a) - signedRep P (eval P env b)\<bar> \<le> D"
    and run: "Min_bc a b st = (r, st')"
  shows "satisfied P env (emitted (api st) (api st')) \<longleftrightarrow>
         eval P env r =
           (if signedRep P (eval P env a) < signedRep P (eval P env b)
            then eval P env a else eval P env b)"
proof -
  note b = comparator_bounds [OF bc]
  from b have P0: "0 < P" by linarith
  from b have len: "absDiffUppBitLen (self st) = BitLen D" by (rule conjunct1 [OF conjunct2])
  note ra = eval_range [OF P0, of env a, THEN conjunct1] eval_range [OF P0, of env a, THEN conjunct2]
    and rb = eval_range [OF P0, of env b, THEN conjunct1] eval_range [OF P0, of env b, THEN conjunct2]
    and rr = eval_range [OF P0, of env r, THEN conjunct1] eval_range [OF P0, of env r, THEN conjunct2]
  note ba = within_bound_differences(1) [OF bc diff]
    and ab = within_bound_differences(2) [OF bc diff]
  note sat = satisfied_Min_bc [OF run P0, of env, unfolded len]
  have inj: "signedRep P (eval P env a) = signedRep P (eval P env b) \<Longrightarrow>
        eval P env a = eval P env b"
    by (rule signedRep_inj [OF ra rb])
  show ?thesis
  proof
    assume "satisfied P env (emitted (api st) (api st'))"
    then have z: "((eval P env a - eval P env r) mod P *
                   ((eval P env b - eval P env r) mod P)) mod P = 0"
      and s: "((eval P env a - eval P env r) mod P +
               (eval P env b - eval P env r) mod P) mod P < 2 ^ BitLen D"
      unfolding sat by (rule conjunct1, rule conjunct2)
    show "eval P env r =
           (if signedRep P (eval P env a) < signedRep P (eval P env b)
            then eval P env a else eval P env b)"
      by (rule min_core_sound [OF prime ra rb rr ba ab inj z s])
  next
    assume "eval P env r =
           (if signedRep P (eval P env a) < signedRep P (eval P env b)
            then eval P env a else eval P env b)"
    then show "satisfied P env (emitted (api st) (api st'))"
      unfolding sat by (rule min_core_complete [OF ba ab])
  qed
qed

lemma Min_hint:
  assumes bc: "NewBoundedComparator P D allowNonDeterminism = Inr bc"
    and diff: "\<bar>signedRep P (eval P env a) - signedRep P (eval P env b)\<bar> \<le> D"
  shows "minOutputHint P [eval P env a, eval P env b] [0] =
         Inr [if signedRep P (eval P env a) < signedRep P (eval P env b)
              then eval P env a else eval P env b]"
proof -
  note b = comparator_bounds [OF bc]
  from b have P0: "0 < P" and P: "2 * D + 1 < P" by linarith+
  have "cmpInField (eval P env a) (eval P env b) P =
        Cmp (signedRep P (eval P env a)) (signedRep P (eval P env b))"
    using eval_range [OF P0, of env a] eval_range [OF P0, of env b] diff P
    by (intro cmpInField_signed [where D = D]) simp_all
  then show ?thesis by (simp add: minOutputHint_eq Cmp_less)
qed

section \<open>The comparator at the largest positive element\<close>

text \<open>In the field of order 13 the bound 2 is accepted, with or without non-determinism.\<close>

lemma NewBoundedComparator_13_2:
  "NewBoundedComparator 13 2 allowNonDeterminism = Inr \<lparr>absDiffUppBitLen = 2\<rparr>"
  by (simp add: NewBoundedComparator_def Cmp_def Lsh_def BitLen_def bitLenNat.simps)

text \<open>
  C1, at a = 5, b = 6 in the field of order 13 with the bound 2 (absDiffUppBitLen 2):
  the signed interpretations are 5 and 6, their difference is within the bound and
  a \<le> b, so the claim says that IsLessEq(a, b) returns 1 and that a witness exists.
  \<open>IsLessEq\<close> is \<open>IsLess\<close> on a and b + 1 = 7, the signed value -6. The
  hint \<open>isLessOutputHint\<close> is run on 5 and 7 and answers 0; with that value the
  selected difference is 5 - 7 = 11 in the field, which does not fit in 2 bits: the
  assignment that witness generation computes violates the emitted constraints and
  no proof is produced. The constraints alone are satisfied by the value 1. The
  other parts of the claim hold, as the lemmas of the four sections above show.
\<close>

theorem IsLessEq_fails_at_largest_positive:
  "signedRep 13 5 = 5 \<and> signedRep 13 6 = 6 \<and>
   IsLessEq (Var 0) (Var 1)
       \<lparr>self = \<lparr>absDiffUppBitLen = 2\<rparr>,
        api = \<lparr>nextVar = 2, hintCalls = [], constraints = []\<rparr>\<rparr> =
     Inr (Var 2,
       \<lparr>self = \<lparr>absDiffUppBitLen = 2\<rparr>,
        api = \<lparr>nextVar = 3,
               hintCalls = [\<lparr>hFn = IsLessOutputHint, hInputs = [Var 0, Add (Var 1) (Const 1)],
                             hFirst = 2, hCount = 1\<rparr>],
               constraints =
                 [IsBoolean (Var 2),
                  HasBitLen 2 (Select (Var 2)
                     (Sub (Sub (Add (Var 1) (Const 1)) (Var 0)) (Const 1))
                     (Sub (Var 0) (Add (Var 1) (Const 1))))]\<rparr>\<rparr>) \<and>
   isLessOutputHint 13 [5, 7] [0] = Inr [0] \<and>
   map (projr (runHints 13
          [\<lparr>hFn = IsLessOutputHint, hInputs = [Var 0, Add (Var 1) (Const 1)],
            hFirst = 2, hCount = 1\<rparr>] (envOf [5, 6]))) [0, 1, 2] = [5, 6, 0] \<and>
   eval 13 (envOf [5, 6, 0]) (Select (Var 2)
       (Sub (Sub (Add (Var 1) (Const 1)) (Var 0)) (Const 1))
       (Sub (Var 0) (Add (Var 1) (Const 1)))) = 11 \<and>
   \<not> satisfied 13 (envOf [5, 6, 0])
       [IsBoolean (Var 2),
        HasBitLen 2 (Select (Var 2)
           (Sub (Sub (Add (Var 1) (Const 1)) (Var 0)) (Const 1))
           (Sub (Var 0) (Add (Var 1) (Const 1))))] \<and>
   satisfied 13 (envOf [5, 6, 1])
       [IsBoolean (Var 2),
        HasBitLen 2 (Select (Var 2)
           (Sub (Sub (Add (Var 1) (Const 1)) (Var 0)) (Const 1))
           (Sub (Var 0) (Add (Var 1) (Const 1))))]"
  by (simp add: Cmp_def signedRep_def IsLessEq_def IsLess_Inr isLessOutputHint_def
      cmpInField_def Rsh_def assign_def envOf_def satisfied_def)

end
